theory Spec2Isabelle
  imports Main "HOL-Library.Multiset"
begin

section \<open>Boundary search over a POP3 mailbox (yahoo/terabyebye.py)\<close>

text \<open>
  A mailbox session is seen through the \<^verbatim>\<open>Date\<close> headers it serves: position \<open>i\<close>
  (1-based) holds \<open>Some d\<close> when the header of message \<open>i\<close> parses to the date \<open>d\<close> and
  \<open>None\<close> when the message has no parseable date. Dates are compared only with \<open>\<le>\<close>
  and \<open><\<close>, so any linear order stands for Python's naive \<^verbatim>\<open>datetime\<close>.
  Positions are Python integers.
\<close>

text \<open>
  \<^verbatim>\<open>get_message_date(pop, msg_num)\<close>: the \<^verbatim>\<open>TOP\<close> command of a position outside the
  mailbox raises, the bare \<^verbatim>\<open>except\<close> swallows it, and the function returns \<^verbatim>\<open>None\<close>.
\<close>

definition get_message_date :: "'d option list \<Rightarrow> int \<Rightarrow> 'd option" where
  "get_message_date pop msg_num =
     (if 1 \<le> msg_num \<and> msg_num \<le> int (length pop) then pop ! nat (msg_num - 1) else None)"

text \<open>
  The \<^verbatim>\<open>for offset in [1, -1, 2, -2, 5, -5]\<close> loop. The result is the list of positions
  whose header was fetched, in order, and the adopted position with its date when one
  was found (the \<^verbatim>\<open>break\<close>).
\<close>

fun probe_neighbors ::
  "'d option list \<Rightarrow> int \<Rightarrow> int \<Rightarrow> int list \<Rightarrow> int list \<times> (int \<times> 'd) option" where
  "probe_neighbors pop num_messages mid [] = ([], None)"
| "probe_neighbors pop num_messages mid (offset # offsets) =
     (let test_msg = mid + offset in
      if 1 \<le> test_msg \<and> test_msg \<le> num_messages then
        (case get_message_date pop test_msg of
           Some d \<Rightarrow> ([test_msg], Some (test_msg, d))
         | None \<Rightarrow>
             (case probe_neighbors pop num_messages mid offsets of
                (probed, found) \<Rightarrow> (test_msg # probed, found)))
      else probe_neighbors pop num_messages mid offsets)"

definition neighbor_offsets :: "int list" where
  "neighbor_offsets = [1, -1, 2, -2, 5, -5]"

text \<open>
  The comparison at the end of the loop body, for a candidate \<open>mid\<close> whose date \<open>d\<close> is
  known: the new \<open>(left, right, result)\<close>.
\<close>

definition narrow :: "'d::linorder \<Rightarrow> bool \<Rightarrow> int \<Rightarrow> 'd \<Rightarrow> int \<Rightarrow> int \<Rightarrow> int \<Rightarrow> int \<times> int \<times> int" where
  "narrow target_date find_first_gte mid d left right result =
     (if find_first_gte then
        (if d \<ge> target_date then (left, mid - 1, mid) else (mid + 1, right, result))
      else
        (if d < target_date then (mid + 1, right, mid) else (left, mid - 1, result)))"

text \<open>One pass through the body of \<^verbatim>\<open>while left <= right\<close>.\<close>

definition search_body ::
  "'d::linorder option list \<Rightarrow> int \<Rightarrow> 'd \<Rightarrow> bool \<Rightarrow> int \<times> int \<times> int \<Rightarrow> int \<times> int \<times> int" where
  "search_body pop num_messages target_date find_first_gte s =
     (case s of (left, right, result) \<Rightarrow>
        let mid = (left + right) div 2 in
        (case get_message_date pop mid of
           Some d \<Rightarrow> narrow target_date find_first_gte mid d left right result
         | None \<Rightarrow>
             (case snd (probe_neighbors pop num_messages mid neighbor_offsets) of
                Some (mid', d) \<Rightarrow> narrow target_date find_first_gte mid' d left right result
              | None \<Rightarrow> (mid + 10, right, result))))"

text \<open>
  The loop. It need not end (an adopted neighbour can lie outside \<open>[left, right]\<close>), so
  it is a partial function: \<open>None\<close> is a search that never returns.
\<close>

partial_function (option) search_loop ::
  "'d::linorder option list \<Rightarrow> int \<Rightarrow> 'd \<Rightarrow> bool \<Rightarrow> int \<times> int \<times> int \<Rightarrow> int option" where
  "search_loop pop num_messages target_date find_first_gte s =
     (if fst s \<le> fst (snd s)
      then search_loop pop num_messages target_date find_first_gte
             (search_body pop num_messages target_date find_first_gte s)
      else Some (snd (snd s)))"

definition binary_search_date ::
  "'d::linorder option list \<Rightarrow> int \<Rightarrow> 'd \<Rightarrow> bool \<Rightarrow> int option" where
  "binary_search_date pop num_messages target_date find_first_gte =
     search_loop pop num_messages target_date find_first_gte
       (1, num_messages, if find_first_gte then num_messages + 1 else 0)"

text \<open>
  \<^verbatim>\<open>binary_search_cutoff\<close> of pop3\_cleanup\_fast.py: the same loop without the
  \<^verbatim>\<open>find_first_gte\<close> switch (it always looks for the first message at or after the
  cutoff).
\<close>

definition cutoff_body ::
  "'d::linorder option list \<Rightarrow> int \<Rightarrow> 'd \<Rightarrow> int \<times> int \<times> int \<Rightarrow> int \<times> int \<times> int" where
  "cutoff_body pop num_messages cutoff_date s =
     (case s of (left, right, result) \<Rightarrow>
        let mid = (left + right) div 2 in
        (case get_message_date pop mid of
           Some d \<Rightarrow>
             (if d \<ge> cutoff_date then (left, mid - 1, mid) else (mid + 1, right, result))
         | None \<Rightarrow>
             (case snd (probe_neighbors pop num_messages mid neighbor_offsets) of
                Some (mid', d) \<Rightarrow>
                  (if d \<ge> cutoff_date then (left, mid' - 1, mid') else (mid' + 1, right, result))
              | None \<Rightarrow> (mid + 10, right, result))))"

partial_function (option) cutoff_loop ::
  "'d::linorder option list \<Rightarrow> int \<Rightarrow> 'd \<Rightarrow> int \<times> int \<times> int \<Rightarrow> int option" where
  "cutoff_loop pop num_messages cutoff_date s =
     (if fst s \<le> fst (snd s)
      then cutoff_loop pop num_messages cutoff_date (cutoff_body pop num_messages cutoff_date s)
      else Some (snd (snd s)))"

definition binary_search_cutoff :: "'d::linorder option list \<Rightarrow> int \<Rightarrow> 'd \<Rightarrow> int option" where
  "binary_search_cutoff pop num_messages cutoff_date =
     cutoff_loop pop num_messages cutoff_date (1, num_messages, num_messages + 1)"

section \<open>The batch delete engine (delete\_messages\_robust)\<close>

text \<open>
  The function of yahoo/terabyebye.py. The configuration dictionary is read once, for
  \<^verbatim>\<open>config.get("BATCH_SIZE", 50)\<close>: the field is \<open>None\<close> when the key is absent.
\<close>

record config =
  BATCH_SIZE :: "int option"

definition max_failures :: int where
  "max_failures = 5"

definition batch_size :: "config \<Rightarrow> int" where
  "batch_size config = min (case BATCH_SIZE config of None \<Rightarrow> 50 | Some b \<Rightarrow> b) 50"

text \<open>
  The server is outside the program. What it answers during one pass through the
  \<^verbatim>\<open>while True\<close> loop is an input: the connection is refused, or \<^verbatim>\<open>STAT\<close> fails, or the
  session reports a message count, fails \<^verbatim>\<open>DELE\<close> at the listed positions, and accepts
  or rejects \<^verbatim>\<open>QUIT\<close>. A run of the loop consumes a list of such answers.
\<close>

datatype cycle =
    Connect_refused
  | Stat_failed
  | Counted (stat_count: int) (dele_errors: "int list") (quit_error: bool)

text \<open>What the engine does that can be seen from outside: commands and pauses.\<close>

datatype devent =
    Waiting int
  | Pausing int
  | Dele_cmds "int list"
  | Quit_cmd bool

record dstate =
  initial_count :: "int option"
  num_messages :: "int option"
  consecutive_failures :: int
  events :: "devent list"

datatype stop =
    Too_many_failures
  | Mailbox_empty
  | Target_reached
  | Start_beyond_mailbox
  | Empty_batch

datatype error = Quit_raised | Name_error

datatype dstep = Continue dstate | Break stop dstate | Raise error

text \<open>
  The marking loop \<^verbatim>\<open>for i in range(current_start, current_start + batch_count)\<close>: the
  result is \<^verbatim>\<open>marked_count\<close>, \<^verbatim>\<open>errors_this_batch\<close> and the positions a \<^verbatim>\<open>DELE\<close> was sent
  for. More than ten errors end the loop early.
\<close>

fun mark_messages :: "int list \<Rightarrow> int list \<Rightarrow> int \<Rightarrow> int \<Rightarrow> int \<times> int \<times> int list" where
  "mark_messages errs [] marked_count errors_this_batch = (marked_count, errors_this_batch, [])"
| "mark_messages errs (i # rest) marked_count errors_this_batch =
     (if i \<in> set errs then
        (if errors_this_batch + 1 > 10 then (marked_count, errors_this_batch + 1, [i])
         else (case mark_messages errs rest marked_count (errors_this_batch + 1) of
                 (m, e, sent) \<Rightarrow> (m, e, i # sent)))
      else (case mark_messages errs rest (marked_count + 1) errors_this_batch of
              (m, e, sent) \<Rightarrow> (m, e, i # sent)))"

text \<open>
  The two \<^verbatim>\<open>except\<close> branches of connecting and counting, which are the same code:
  count the failure, stop at the ceiling, otherwise wait \<^verbatim>\<open>min(30 * consecutive_failures, 120)\<close>.
\<close>

definition connect_wait :: "int \<Rightarrow> int" where
  "connect_wait failures = min (30 * failures) 120"

definition connection_failure :: "dstate \<Rightarrow> dstep" where
  "connection_failure st =
     (let failures = consecutive_failures st + 1;
          st1 = st\<lparr>consecutive_failures := failures\<rparr> in
      if failures \<ge> max_failures then Break Too_many_failures st1
      else Continue (st1\<lparr>events := events st1 @ [Waiting (connect_wait failures)]\<rparr>))"

text \<open>The \<^verbatim>\<open>except\<close> branch of the commit: the wait is \<^verbatim>\<open>min(60 * consecutive_failures, 300)\<close>.\<close>

definition commit_wait :: "int \<Rightarrow> int" where
  "commit_wait failures = min (60 * failures) 300"

definition commit_failure :: "dstate \<Rightarrow> dstep" where
  "commit_failure st =
     (let failures = consecutive_failures st + 1;
          st1 = st\<lparr>consecutive_failures := failures, events := events st @ [Quit_cmd False]\<rparr> in
      if failures \<ge> max_failures then Break Too_many_failures st1
      else Continue (st1\<lparr>events := events st1 @ [Waiting (commit_wait failures)]\<rparr>))"

text \<open>
  A \<^verbatim>\<open>pop.quit()\<close> outside any \<^verbatim>\<open>try\<close>, followed by \<^verbatim>\<open>break\<close>: when the server rejects
  it the exception leaves the function.
\<close>

definition quit_and_break :: "bool \<Rightarrow> stop \<Rightarrow> dstate \<Rightarrow> dstep" where
  "quit_and_break quit_fails reason st = (if quit_fails then Raise Quit_raised else Break reason st)"

text \<open>
  Lines 523 and 524: \<^verbatim>\<open>initial_count\<close> after the count \<open>n\<close> has been read, the first count
  ever read.
\<close>

definition first_count :: "dstate \<Rightarrow> int \<Rightarrow> int" where
  "first_count st n = (case initial_count st of None \<Rightarrow> n | Some c0 \<Rightarrow> c0)"

text \<open>One pass through the body of the \<^verbatim>\<open>while True\<close> loop.\<close>

definition delete_cycle :: "config \<Rightarrow> int \<Rightarrow> int \<Rightarrow> dstate \<Rightarrow> cycle \<Rightarrow> dstep" where
  "delete_cycle config messages_to_delete start_position st c =
     (case c of
        Connect_refused \<Rightarrow> connection_failure st
      | Stat_failed \<Rightarrow> connection_failure st
      | Counted n dele_fails quit_fails \<Rightarrow>
          let st1 = st\<lparr>initial_count := Some (first_count st n), num_messages := Some n\<rparr>;
              actual_deleted = first_count st n - n
          in
          if n = 0 then quit_and_break quit_fails Mailbox_empty st1
          else if actual_deleted \<ge> messages_to_delete then quit_and_break quit_fails Target_reached st1
          else
            let current_start = start_position in
            if current_start > n then quit_and_break quit_fails Start_beyond_mailbox st1
            else
              let remaining = messages_to_delete - actual_deleted;
                  batch_count = min (min (batch_size config) remaining) (n - current_start + 1)
              in
              if batch_count \<le> 0 then quit_and_break quit_fails Empty_batch st1
              else
                (case mark_messages dele_fails [current_start .. current_start + batch_count - 1] 0 0 of
                   (marked_count, errors_this_batch, sent) \<Rightarrow>
                     let st2 = st1\<lparr>events := events st1 @ [Dele_cmds sent]\<rparr> in
                     if quit_fails then commit_failure st2
                     else Continue (st2\<lparr>consecutive_failures := 0,
                                        events := events st2 @ [Quit_cmd True, Pausing 3]\<rparr>)))"

text \<open>
  The loop over the server's answers. \<open>None\<close>: the answers ran out while the loop was
  still going.
\<close>

fun delete_loop ::
  "config \<Rightarrow> int \<Rightarrow> int \<Rightarrow> dstate \<Rightarrow> cycle list \<Rightarrow> (error + stop \<times> dstate) option" where
  "delete_loop config messages_to_delete start_position st [] = None"
| "delete_loop config messages_to_delete start_position st (c # cs) =
     (case delete_cycle config messages_to_delete start_position st c of
        Continue st' \<Rightarrow> delete_loop config messages_to_delete start_position st' cs
      | Break reason st' \<Rightarrow> Some (Inr (reason, st'))
      | Raise e \<Rightarrow> Some (Inl e))"

text \<open>
  The final count after the loop. \<open>final\<close> is \<open>Some final_count\<close> when the last
  connect, \<^verbatim>\<open>STAT\<close> and \<^verbatim>\<open>QUIT\<close> all succeed, and \<open>None\<close> when one of them raises (the bare
  \<^verbatim>\<open>except\<close>). \<^verbatim>\<open>if initial_count\<close> is false for \<^verbatim>\<open>None\<close> and for 0.
\<close>

definition final_count_phase :: "dstate \<Rightarrow> int option \<Rightarrow> error + int" where
  "final_count_phase st final =
     (case final of
        Some final_count \<Rightarrow>
          (case initial_count st of
             None \<Rightarrow> Inr 0
           | Some c0 \<Rightarrow> if c0 \<noteq> 0 then Inr (c0 - final_count) else Inr 0)
      | None \<Rightarrow>
          (case initial_count st of
             None \<Rightarrow> Inr 0
           | Some c0 \<Rightarrow>
               if c0 \<noteq> 0 then
                 (case num_messages st of None \<Rightarrow> Inl Name_error | Some n \<Rightarrow> Inr (c0 - n))
               else Inr 0))"

definition initial_dstate :: dstate where
  "initial_dstate =
     \<lparr>initial_count = None, num_messages = None, consecutive_failures = 0, events = []\<rparr>"

text \<open>
  The whole function: the value returned (\<^verbatim>\<open>total_deleted\<close>), with the way the loop
  ended and the final local state kept for the statements below.
\<close>

definition delete_messages_robust ::
  "config \<Rightarrow> int \<Rightarrow> int \<Rightarrow> cycle list \<Rightarrow> int option \<Rightarrow> (error + int \<times> stop \<times> dstate) option" where
  "delete_messages_robust config messages_to_delete start_position answers final =
     (case delete_loop config messages_to_delete start_position initial_dstate answers of
        None \<Rightarrow> None
      | Some (Inl e) \<Rightarrow> Some (Inl e)
      | Some (Inr (reason, st)) \<Rightarrow>
          (case final_count_phase st final of
             Inl e \<Rightarrow> Some (Inl e)
           | Inr total_deleted \<Rightarrow> Some (Inr (total_deleted, reason, st))))"

text \<open>
  Vocabulary for the statements about runs: the counts the server reported in a list of
  answers, a pass that ends the loop otherwise than by the failure ceiling, and an answer
  with its \<^verbatim>\<open>DELE\<close> errors taken away.
\<close>

fun observed_counts :: "cycle list \<Rightarrow> int list" where
  "observed_counts [] = []"
| "observed_counts (Counted n dele_fails quit_fails # cs) = n # observed_counts cs"
| "observed_counts (c # cs) = observed_counts cs"

definition done_step :: "dstep \<Rightarrow> bool" where
  "done_step s = (case s of Break reason st \<Rightarrow> reason \<noteq> Too_many_failures | _ \<Rightarrow> False)"

fun without_dele_errors :: "cycle \<Rightarrow> cycle" where
  "without_dele_errors (Counted n dele_fails quit_fails) = Counted n [] quit_fails"
| "without_dele_errors c = c"

text \<open>
  The part of the local state that decides how the loop goes on, and two passes that
  agree on it.
\<close>

definition core :: "dstate \<Rightarrow> int option \<times> int option \<times> int" where
  "core st = (initial_count st, num_messages st, consecutive_failures st)"

fun same_step :: "dstep \<Rightarrow> dstep \<Rightarrow> bool" where
  "same_step (Continue a) (Continue b) = (core a = core b)"
| "same_step (Break r a) (Break r' b) = (r = r' \<and> core a = core b)"
| "same_step (Raise e) (Raise e') = (e = e')"
| "same_step _ _ = False"

definition outcome :: "(error + int \<times> stop \<times> dstate) option \<Rightarrow> (error + int \<times> stop) option" where
  "outcome r = map_option (map_sum id (\<lambda>(total_deleted, reason, st). (total_deleted, reason))) r"

section \<open>The backup pipeline (backup\_emails\_to\_zip)\<close>

text \<open>
  Here the content of the mailbox matters, so the server is a store: the list of its
  messages, the head at position 1. A message is what \<^verbatim>\<open>RETR\<close> returns; its date, when
  the header parses, is year, month and day. A successful \<^verbatim>\<open>QUIT\<close> removes the marked
  positions; a failed one, and a session that ends without it, removes nothing.
\<close>

type_synonym date = "int \<times> int \<times> int"

record message =
  msg_id :: nat
  msg_date :: "date option"

text \<open>
  An archive entry: the ZIP file it goes to (\<^verbatim>\<open>emails_YYYY-MM.zip\<close>, here the year and
  the month), its name in the file (\<^verbatim>\<open>msg_<index>_<YYYYMMDD or unknown>.eml\<close>, here the
  index and the date), and the content.
\<close>

type_synonym zip_entry = "(int \<times> int) \<times> (int \<times> date option) \<times> message"

datatype answer =
    No_connection
  | No_stat
  | Served (retr_errors: "int list") (dele_failures: "int list") (quit_failure: bool)

datatype bevent =
    Sleeping int
  | Downloading int int
  | Retr_cmds "int list"
  | Zip_write zip_entry
  | Dele_sent "int list"
  | Commit bool "message list"

record bstate =
  backed_up :: int
  deleted :: int
  failures :: int
  remaining :: int
  mailbox :: "message list"
  archive :: "zip_entry list"
  trace :: "bevent list"

datatype bstep = Next bstate | Stop bstate

text \<open>\<^verbatim>\<open>pop.retr(msg_num)\<close>: raises on a position outside the mailbox or when the server fails.\<close>

definition retr :: "message list \<Rightarrow> int list \<Rightarrow> int \<Rightarrow> message option" where
  "retr mbox errs msg_num =
     (if msg_num \<in> set errs \<or> msg_num < 1 \<or> msg_num > int (length mbox) then None
      else Some (mbox ! nat (msg_num - 1)))"

text \<open>The bucket and the file name of a message; 1970-01 and \<^verbatim>\<open>unknown\<close> without a date.\<close>

definition make_entry :: "int \<Rightarrow> message \<Rightarrow> date option \<Rightarrow> zip_entry" where
  "make_entry file_index content d =
     (case d of
        Some (year, month, day) \<Rightarrow> ((year, month), (file_index, Some (year, month, day)), content)
      | None \<Rightarrow> ((1970, 1), (file_index, None), content))"

text \<open>
  The download loop \<^verbatim>\<open>for msg_num in range(current_start, batch_end + 1)\<close>, with its
  accumulators \<^verbatim>\<open>batch_emails\<close> and \<^verbatim>\<open>batch_msg_nums\<close>. The result adds the failure counter
  and the positions a \<^verbatim>\<open>RETR\<close> was sent for. The loop ends early when the failure counter
  reaches the ceiling.
\<close>

fun download ::
  "message list \<Rightarrow> int list \<Rightarrow> int \<Rightarrow> int list \<Rightarrow> zip_entry list \<Rightarrow> int list \<Rightarrow> int
     \<Rightarrow> zip_entry list \<times> int list \<times> int \<times> int list" where
  "download mbox errs done [] batch_emails batch_msg_nums fails =
     (batch_emails, batch_msg_nums, fails, [])"
| "download mbox errs done (msg_num # rest) batch_emails batch_msg_nums fails =
     (case retr mbox errs msg_num of
        Some content \<Rightarrow>
          (let d = get_message_date (map msg_date mbox) msg_num;
               file_index = done + int (length batch_emails) + 1 in
           case download mbox errs done rest
                  (batch_emails @ [make_entry file_index content d])
                  (batch_msg_nums @ [msg_num]) fails of
             (be, bn, f, sent) \<Rightarrow> (be, bn, f, msg_num # sent))
      | None \<Rightarrow>
          (if fails + 1 \<ge> max_failures then (batch_emails, batch_msg_nums, fails + 1, [msg_num])
           else case download mbox errs done rest batch_emails batch_msg_nums (fails + 1) of
                  (be, bn, f, sent) \<Rightarrow> (be, bn, f, msg_num # sent)))"

text \<open>
  \<^verbatim>\<open>batch_by_zip\<close>: the entries of the batch grouped by ZIP file, the files in the order of
  their first entry (a Python dictionary keeps insertion order).
\<close>

fun add_to_zip :: "((int \<times> int) \<times> zip_entry list) list \<Rightarrow> zip_entry \<Rightarrow> ((int \<times> int) \<times> zip_entry list) list" where
  "add_to_zip [] e = [(fst e, [e])]"
| "add_to_zip ((z, es) # groups) e =
     (if z = fst e then (z, es @ [e]) # groups else (z, es) # add_to_zip groups e)"

definition batch_by_zip :: "zip_entry list \<Rightarrow> ((int \<times> int) \<times> zip_entry list) list" where
  "batch_by_zip batch_emails = foldl add_to_zip [] batch_emails"

text \<open>The entries in the order in which they are written, file after file.\<close>

definition write_order :: "zip_entry list \<Rightarrow> zip_entry list" where
  "write_order batch_emails = concat (map snd (batch_by_zip batch_emails))"

text \<open>The store after a successful \<^verbatim>\<open>QUIT\<close>: the marked positions are gone.\<close>

fun remove_marked :: "int list \<Rightarrow> int \<Rightarrow> 'a list \<Rightarrow> 'a list" where
  "remove_marked marked i [] = []"
| "remove_marked marked i (x # xs) =
     (if i \<in> set marked then remove_marked marked (i + 1) xs
      else x # remove_marked marked (i + 1) xs)"

definition messages_at :: "message list \<Rightarrow> int list \<Rightarrow> message list" where
  "messages_at mbox positions = map (\<lambda>i. mbox ! nat (i - 1)) positions"

text \<open>Lines 347 to 350: where the reads of a batch start.\<close>

definition current_start :: "bool \<Rightarrow> int \<Rightarrow> int \<Rightarrow> int" where
  "current_start delete_after start_pos done =
     (if delete_after then start_pos else start_pos + done)"

text \<open>
  From the ZIP writes to the end of the loop body: the batch is written, the counters
  advance, and with \<^verbatim>\<open>delete_after\<close> and a non-empty batch the positions are marked and
  committed; a failed commit takes the counters back and waits \<^verbatim>\<open>30 * consecutive_failures\<close>.
\<close>

definition write_and_commit ::
  "bool \<Rightarrow> int list \<Rightarrow> bool \<Rightarrow> zip_entry list \<Rightarrow> int list \<Rightarrow> bstate \<Rightarrow> bstate" where
  "write_and_commit delete_after dele_fails quit_fails batch_emails batch_msg_nums st =
     (let st2 = st\<lparr>archive := archive st @ write_order batch_emails,
                    trace := trace st @ map Zip_write (write_order batch_emails),
                    backed_up := backed_up st + int (length batch_emails),
                    remaining := remaining st - int (length batch_emails)\<rparr> in
      if delete_after \<and> batch_msg_nums \<noteq> [] then
        (let marked = filter (\<lambda>i. i \<notin> set dele_fails) batch_msg_nums;
             st3 = st2\<lparr>trace := trace st2 @ [Dele_sent batch_msg_nums]\<rparr> in
         if quit_fails then
           st3\<lparr>failures := failures st3 + 1,
               backed_up := backed_up st3 - int (length batch_emails),
               remaining := remaining st3 + int (length batch_emails),
               trace := trace st3 @ [Commit False (messages_at (mailbox st3) marked),
                                     Sleeping (30 * (failures st3 + 1))]\<rparr>
         else
           (let st4 = st3\<lparr>deleted := deleted st3 + int (length batch_msg_nums),
                          failures := 0,
                          mailbox := remove_marked marked 1 (mailbox st3),
                          trace := trace st3 @ [Commit True (messages_at (mailbox st3) marked)]\<rparr> in
            if remaining st4 > 0 then st4\<lparr>trace := trace st4 @ [Sleeping 2]\<rparr> else st4))
      else
        (let st4 = st2\<lparr>failures := 0\<rparr> in
         if remaining st4 > 0 then st4\<lparr>trace := trace st4 @ [Sleeping 2]\<rparr> else st4))"

text \<open>One pass through the body of \<^verbatim>\<open>while remaining > 0\<close>.\<close>

definition backup_cycle :: "int \<Rightarrow> bool \<Rightarrow> bstate \<Rightarrow> answer \<Rightarrow> bstep" where
  "backup_cycle start_pos delete_after st a =
     (case a of
        No_connection \<Rightarrow>
          (let f = failures st + 1 in
           if f \<ge> max_failures then Stop (st\<lparr>failures := f\<rparr>)
           else Next (st\<lparr>failures := f, trace := trace st @ [Sleeping (30 * f)]\<rparr>))
      | No_stat \<Rightarrow> Next (st\<lparr>failures := failures st + 1\<rparr>)
      | Served retr_fails dele_fails quit_fails \<Rightarrow>
          (let num_msgs = int (length (mailbox st));
               first = current_start delete_after start_pos (backed_up st) in
           if first > num_msgs then Stop st
           else
             (let batch_count = min (min 50 (remaining st)) (num_msgs - first + 1);
                  batch_end = first + batch_count - 1 in
              case download (mailbox st) retr_fails (backed_up st) [first .. batch_end] [] []
                     (failures st) of
                (batch_emails, batch_msg_nums, f, sent) \<Rightarrow>
                  (let st1 = st\<lparr>failures := f,
                                 trace := trace st @ [Downloading first batch_end, Retr_cmds sent]\<rparr> in
                   if f \<ge> max_failures then Stop st1
                   else Next (write_and_commit delete_after dele_fails quit_fails
                                batch_emails batch_msg_nums st1)))))"

text \<open>The loop over the server's answers; \<open>None\<close> when they run out before the loop ends.\<close>

fun backup_loop :: "int \<Rightarrow> bool \<Rightarrow> bstate \<Rightarrow> answer list \<Rightarrow> bstate option" where
  "backup_loop start_pos delete_after st [] = (if remaining st > 0 then None else Some st)"
| "backup_loop start_pos delete_after st (a # as) =
     (if remaining st > 0 then
        (case backup_cycle start_pos delete_after st a of
           Next st' \<Rightarrow> backup_loop start_pos delete_after st' as
         | Stop st' \<Rightarrow> Some st')
      else Some st)"

text \<open>
  The whole function, started on an empty output directory: it returns
  \<^verbatim>\<open>(backed_up, deleted)\<close>; the final state is kept for the statements below. The
  configuration is used for the credentials of the connection only.
\<close>

definition backup_emails_to_zip ::
  "config \<Rightarrow> int \<Rightarrow> int \<Rightarrow> bool \<Rightarrow> message list \<Rightarrow> answer list \<Rightarrow> (int \<times> int \<times> bstate) option" where
  "backup_emails_to_zip config start_pos end_pos delete_after mbox answers =
     (let total_to_process = end_pos - start_pos + 1 in
      case backup_loop start_pos delete_after
             \<lparr>backed_up = 0, deleted = 0, failures = 0, remaining = total_to_process,
              mailbox = mbox, archive = [], trace = []\<rparr> answers of
        None \<Rightarrow> None
      | Some st \<Rightarrow> Some (backed_up st, deleted st, st))"

text \<open>
  Vocabulary for the statements about the pipeline: the message of an entry, the state a
  pass leaves, an answer of the server in which neither \<^verbatim>\<open>DELE\<close> nor \<^verbatim>\<open>QUIT\<close> fails, the
  entries written according to a trace, and a trace in which every commit comes after
  the writes of its messages (\<open>seen\<close> holds the messages written so far).
\<close>

definition content :: "zip_entry \<Rightarrow> message" where
  "content e = snd (snd e)"

definition state_of :: "bstep \<Rightarrow> bstate" where
  "state_of s = (case s of Next st \<Rightarrow> st | Stop st \<Rightarrow> st)"

fun archived_first :: "message list \<Rightarrow> bevent list \<Rightarrow> bool" where
  "archived_first seen [] = True"
| "archived_first seen (Zip_write e # es) = archived_first (content e # seen) es"
| "archived_first seen (Commit ok ms # es) = (set ms \<subseteq> set seen \<and> archived_first seen es)"
| "archived_first seen (e # es) = archived_first seen es"

fun zip_writes :: "bevent list \<Rightarrow> zip_entry list" where
  "zip_writes [] = []"
| "zip_writes (Zip_write e # es) = e # zip_writes es"
| "zip_writes (e # es) = zip_writes es"

definition failure_free :: "answer \<Rightarrow> bool" where
  "failure_free a = (case a of Served rf df qf \<Rightarrow> df = [] \<and> \<not> qf | _ \<Rightarrow> True)"

text \<open>Four invariants of the loop used below.\<close>

definition small_batches :: "bevent list \<Rightarrow> bool" where
  "small_batches tr \<longleftrightarrow>
     (\<forall>ps. (Retr_cmds ps \<in> set tr \<or> Dele_sent ps \<in> set tr) \<longrightarrow> length ps \<le> 50)"

definition archive_ok :: "bstate \<Rightarrow> bool" where
  "archive_ok st \<longleftrightarrow> archived_first [] (trace st) \<and> zip_writes (trace st) = archive st"

definition once_ok :: "bstate \<Rightarrow> bool" where
  "once_ok st \<longleftrightarrow> distinct (mailbox st) \<and> distinct (map content (archive st)) \<and>
     content ` set (archive st) \<inter> set (mailbox st) = {}"

definition kept_or_archived :: "message list \<Rightarrow> bstate \<Rightarrow> bool" where
  "kept_or_archived mbox st \<longleftrightarrow> set mbox \<subseteq> set (mailbox st) \<union> content ` set (archive st)"

section \<open>Properties of the boundary search\<close>

subsection \<open>Mailboxes whose dates all parse\<close>

lemma get_message_date_parseable:
  assumes "None \<notin> set pop" "1 \<le> i" "i \<le> int (length pop)"
  shows "get_message_date pop i = Some (the (pop ! nat (i - 1)))"
proof -
  have "nat (i - 1) < length pop" using assms by linarith
  then have "pop ! nat (i - 1) \<in> set pop" by simp
  with assms(1) have "pop ! nat (i - 1) \<noteq> None" by metis
  then show ?thesis using assms by (auto simp: get_message_date_def)
qed

lemma sorted_dates_mono:
  assumes "sorted (map the pop)" "1 \<le> i" "i \<le> j" "j \<le> int (length pop)"
  shows "the (pop ! nat (i - 1)) \<le> the (pop ! nat (j - 1))"
proof -
  have "nat (i - 1) \<le> nat (j - 1)" "nat (j - 1) < length (map the pop)" using assms by auto
  then have "map the pop ! nat (i - 1) \<le> map the pop ! nat (j - 1)"
    using assms(1) sorted_nth_mono by blast
  then show ?thesis using assms by auto
qed

lemma search_loop_first_gte:
  fixes T :: "'d::linorder"
  assumes "None \<notin> set pop" "sorted (map the pop)"
    and "1 \<le> l" "r \<le> int (length pop)" "l \<le> r + 1" "res = r + 1"
    and "\<forall>i. 1 \<le> i \<and> i < l \<longrightarrow> the (pop ! nat (i - 1)) < T"
    and "\<forall>i. r < i \<and> i \<le> int (length pop) \<longrightarrow> T \<le> the (pop ! nat (i - 1))"
  shows "\<exists>R. search_loop pop (int (length pop)) T True (l, r, res) = Some R \<and> l \<le> R \<and> R \<le> r + 1 \<and>
           (\<forall>i. 1 \<le> i \<and> i < R \<longrightarrow> the (pop ! nat (i - 1)) < T) \<and>
           (\<forall>i. R \<le> i \<and> i \<le> int (length pop) \<longrightarrow> T \<le> the (pop ! nat (i - 1)))"
  using assms(3-)
proof (induction "nat (r - l + 1)" arbitrary: l r res rule: less_induct)
  case less
  show ?case
  proof (cases "l \<le> r")
    case False
    then have "search_loop pop (int (length pop)) T True (l, r, res) = Some res"
      by (subst search_loop.simps) simp
    moreover have "l = r + 1" using False less.prems by linarith
    ultimately show ?thesis using less.prems by auto
  next
    case True
    define mid where "mid = (l + r) div 2"
    have mid: "l \<le> mid" "mid \<le> r" using True by (auto simp: mid_def)
    then have inr: "1 \<le> mid" "mid \<le> int (length pop)" using less.prems by auto
    define d where "d = the (pop ! nat (mid - 1))"
    have gd: "get_message_date pop mid = Some d"
      unfolding d_def by (rule get_message_date_parseable[OF assms(1) inr])
    show ?thesis
    proof (cases "T \<le> d")
      case ge: True
      have body: "search_body pop (int (length pop)) T True (l, r, res) = (l, mid - 1, mid)"
        using gd ge by (simp add: search_body_def narrow_def mid_def Let_def)
      have unf: "search_loop pop (int (length pop)) T True (l, r, res)
                 = search_loop pop (int (length pop)) T True (l, mid - 1, mid)"
        using True body by (subst search_loop.simps) simp
      have up: "\<forall>i. mid - 1 < i \<and> i \<le> int (length pop) \<longrightarrow> T \<le> the (pop ! nat (i - 1))"
      proof (intro allI impI)
        fix i assume "mid - 1 < i \<and> i \<le> int (length pop)"
        then have "d \<le> the (pop ! nat (i - 1))"
          unfolding d_def using sorted_dates_mono[OF assms(2), of mid i] inr by auto
        with ge show "T \<le> the (pop ! nat (i - 1))" by simp
      qed
      have "nat (mid - 1 - l + 1) < nat (r - l + 1)" using mid by linarith
      from less.hyps[OF this, of mid] less.prems mid up
      obtain R where "search_loop pop (int (length pop)) T True (l, mid - 1, mid) = Some R"
        "l \<le> R" "R \<le> mid - 1 + 1"
        "\<forall>i. 1 \<le> i \<and> i < R \<longrightarrow> the (pop ! nat (i - 1)) < T"
        "\<forall>i. R \<le> i \<and> i \<le> int (length pop) \<longrightarrow> T \<le> the (pop ! nat (i - 1))"
        by auto
      then show ?thesis using unf mid by (intro exI[of _ R]) auto
    next
      case lt: False
      have body: "search_body pop (int (length pop)) T True (l, r, res) = (mid + 1, r, res)"
        using gd lt by (simp add: search_body_def narrow_def mid_def Let_def)
      have unf: "search_loop pop (int (length pop)) T True (l, r, res)
                 = search_loop pop (int (length pop)) T True (mid + 1, r, res)"
        using True body by (subst search_loop.simps) simp
      have low: "\<forall>i. 1 \<le> i \<and> i < mid + 1 \<longrightarrow> the (pop ! nat (i - 1)) < T"
      proof (intro allI impI)
        fix i assume "1 \<le> i \<and> i < mid + 1"
        then have "the (pop ! nat (i - 1)) \<le> d"
          unfolding d_def using sorted_dates_mono[OF assms(2), of i mid] inr by auto
        with lt show "the (pop ! nat (i - 1)) < T" by simp
      qed
      have "nat (r - (mid + 1) + 1) < nat (r - l + 1)" using mid by linarith
      from less.hyps[OF this, of res] less.prems mid low
      obtain R where "search_loop pop (int (length pop)) T True (mid + 1, r, res) = Some R"
        "mid + 1 \<le> R" "R \<le> r + 1"
        "\<forall>i. 1 \<le> i \<and> i < R \<longrightarrow> the (pop ! nat (i - 1)) < T"
        "\<forall>i. R \<le> i \<and> i \<le> int (length pop) \<longrightarrow> T \<le> the (pop ! nat (i - 1))"
        by auto
      then show ?thesis using unf mid by (intro exI[of _ R]) auto
    qed
  qed
qed

lemma cutoff_body_eq:
  "cutoff_body pop N T s = search_body pop N T True s"
  by (simp add: cutoff_body_def search_body_def narrow_def Let_def split: prod.splits option.splits)

lemma cutoff_loop_of_search_loop:
  assumes "search_loop pop N T gte s = Some R" and "gte"
  shows "cutoff_loop pop N T s = Some R"
  using assms
proof (induction rule: search_loop.raw_induct[rotated 1, consumes 1])
  case (1 loop pop N T gte s R)
  show ?case
  proof (cases "fst s \<le> fst (snd s)")
    case True
    with 1 have "cutoff_loop pop N T (search_body pop N T gte s) = Some R" by simp
    with True 1(3) show ?thesis
      by (subst cutoff_loop.simps) (simp add: cutoff_body_eq)
  next
    case False
    with 1(2) show ?thesis by (subst cutoff_loop.simps) simp
  qed
qed

text \<open>
  C1. For a mailbox of \<open>N \<ge> 1\<close> messages whose dates all parse and are non-decreasing
  in position, and for every target date \<open>T\<close>, \<^verbatim>\<open>binary_search_date\<close> with
  \<^verbatim>\<open>find_first_gte=True\<close> returns a position \<open>R\<close> such that position \<open>R - 1\<close>, when it is at
  least 1, is dated before \<open>T\<close>, and position \<open>R\<close>, when it is at most \<open>N\<close>, is dated
  at or after \<open>T\<close>. \<^verbatim>\<open>binary_search_cutoff\<close> returns the same position.
\<close>

theorem binary_search_date_first_gte:
  fixes T :: "'d::linorder"
  assumes "pop \<noteq> []" and "None \<notin> set pop" and "sorted (map the pop)"
  shows "\<exists>R. binary_search_date pop (int (length pop)) T True = Some R \<and>
             binary_search_cutoff pop (int (length pop)) T = Some R \<and>
             1 \<le> R \<and> R \<le> int (length pop) + 1 \<and>
             (1 \<le> R - 1 \<longrightarrow> (\<exists>d. get_message_date pop (R - 1) = Some d \<and> d < T)) \<and>
             (R \<le> int (length pop) \<longrightarrow> (\<exists>d. get_message_date pop R = Some d \<and> T \<le> d))"
proof -
  obtain R where R: "search_loop pop (int (length pop)) T True (1, int (length pop), int (length pop) + 1) = Some R"
      "1 \<le> R" "R \<le> int (length pop) + 1"
      "\<forall>i. 1 \<le> i \<and> i < R \<longrightarrow> the (pop ! nat (i - 1)) < T"
      "\<forall>i. R \<le> i \<and> i \<le> int (length pop) \<longrightarrow> T \<le> the (pop ! nat (i - 1))"
  proof -
    have "\<forall>i. 1 \<le> i \<and> i < (1::int) \<longrightarrow> the (pop ! nat (i - 1)) < T"
      and "\<forall>i. int (length pop) < i \<and> i \<le> int (length pop) \<longrightarrow> T \<le> the (pop ! nat (i - 1))"
      and "(1::int) \<le> int (length pop) + 1"
      by auto
    from search_loop_first_gte[OF assms(2,3) order_refl order_refl this(3) refl this(1,2)] that
    show thesis by blast
  qed
  have "binary_search_cutoff pop (int (length pop)) T = Some R"
    unfolding binary_search_cutoff_def by (rule cutoff_loop_of_search_loop[OF R(1)]) simp
  moreover have "\<exists>d. get_message_date pop (R - 1) = Some d \<and> d < T" if h: "1 \<le> R - 1"
  proof -
    have "R - 1 \<le> int (length pop)" using R(3) by simp
    from get_message_date_parseable[OF assms(2) h this]
    have "get_message_date pop (R - 1) = Some (the (pop ! nat (R - 1 - 1)))" .
    moreover have "1 \<le> R - 1 \<and> R - 1 < R" using h by simp
    with R(4) have "the (pop ! nat (R - 1 - 1)) < T" by blast
    ultimately show ?thesis by blast
  qed
  moreover have "\<exists>d. get_message_date pop R = Some d \<and> T \<le> d" if h: "R \<le> int (length pop)"
  proof -
    from get_message_date_parseable[OF assms(2) R(2) h]
    have "get_message_date pop R = Some (the (pop ! nat (R - 1)))" .
    moreover have "R \<le> R \<and> R \<le> int (length pop)" using h by simp
    with R(5) have "T \<le> the (pop ! nat (R - 1))" by blast
    ultimately show ?thesis by blast
  qed
  ultimately show ?thesis
    using R(1,2,3) by (auto simp: binary_search_date_def)
qed

text \<open>
  The scenario of the specification: ten messages dated day 1 to day 10, one per
  position, and the cutoff day 5; the boundary is position 5.
\<close>

theorem binary_search_date_first_gte_witness:
  "[Some (1::nat), Some 2, Some 3, Some 4, Some 5, Some 6, Some 7, Some 8, Some 9, Some 10] \<noteq> [] \<and>
   None \<notin> set [Some (1::nat), Some 2, Some 3, Some 4, Some 5, Some 6, Some 7, Some 8, Some 9, Some 10] \<and>
   sorted (map the [Some (1::nat), Some 2, Some 3, Some 4, Some 5, Some 6, Some 7, Some 8, Some 9, Some 10]) \<and>
   binary_search_date
     [Some (1::nat), Some 2, Some 3, Some 4, Some 5, Some 6, Some 7, Some 8, Some 9, Some 10] 10 5 True
     = Some 5"
proof -
  let ?pop = "[Some (1::nat), Some 2, Some 3, Some 4, Some 5, Some 6, Some 7, Some 8, Some 9, Some 10]"
  have h1: "?pop \<noteq> []" by simp
  have h2: "None \<notin> set ?pop" by simp
  have h3: "sorted (map the ?pop)" by simp
  have ev: "binary_search_date ?pop 10 5 True = Some 5"
    by (simp add: binary_search_date_def search_loop.simps search_body_def narrow_def
          get_message_date_def)
  from binary_search_date_first_gte[OF h1 h2 h3, of 5] h1 h2 h3 ev show ?thesis by simp
qed

subsection \<open>Sentinels\<close>

lemma all_before_loop:
  fixes T :: "'d::linorder"
  assumes "\<forall>x \<in> set pop. \<exists>d. x = Some d \<and> d < T"
    and "1 \<le> l" "r \<le> int (length pop)"
  shows "search_loop pop (int (length pop)) T True (l, r, res) = Some res"
  using assms(2-)
proof (induction "nat (r - l + 1)" arbitrary: l rule: less_induct)
  case less
  show ?case
  proof (cases "l \<le> r")
    case False
    then show ?thesis by (subst search_loop.simps) simp
  next
    case True
    define mid where "mid = (l + r) div 2"
    have mid: "l \<le> mid" "mid \<le> r" using True by (auto simp: mid_def)
    then have "nat (mid - 1) < length pop" using less.prems by linarith
    then have "pop ! nat (mid - 1) \<in> set pop" by simp
    with assms(1) obtain d where d: "pop ! nat (mid - 1) = Some d" "d < T" by blast
    have "get_message_date pop mid = Some d"
      using d mid less.prems by (auto simp: get_message_date_def)
    moreover have "\<not> T \<le> d" using d(2) by simp
    ultimately have "search_body pop (int (length pop)) T True (l, r, res) = (mid + 1, r, res)"
      by (simp add: search_body_def narrow_def mid_def Let_def)
    then have "search_loop pop (int (length pop)) T True (l, r, res)
               = search_loop pop (int (length pop)) T True (mid + 1, r, res)"
      using True by (subst search_loop.simps) simp
    moreover have "nat (r - (mid + 1) + 1) < nat (r - l + 1)" using mid by linarith
    ultimately show ?thesis using less.hyps[of "mid + 1"] less.prems mid by simp
  qed
qed

lemma all_after_loop:
  fixes T :: "'d::linorder"
  assumes "\<forall>x \<in> set pop. \<exists>d. x = Some d \<and> T \<le> d"
    and "1 \<le> l" "r \<le> int (length pop)"
  shows "search_loop pop (int (length pop)) T False (l, r, res) = Some res"
  using assms(2-)
proof (induction "nat (r - l + 1)" arbitrary: r rule: less_induct)
  case less
  show ?case
  proof (cases "l \<le> r")
    case False
    then show ?thesis by (subst search_loop.simps) simp
  next
    case True
    define mid where "mid = (l + r) div 2"
    have mid: "l \<le> mid" "mid \<le> r" using True by (auto simp: mid_def)
    then have "nat (mid - 1) < length pop" using less.prems by linarith
    then have "pop ! nat (mid - 1) \<in> set pop" by simp
    with assms(1) obtain d where d: "pop ! nat (mid - 1) = Some d" "T \<le> d" by blast
    have "get_message_date pop mid = Some d"
      using d mid less.prems by (auto simp: get_message_date_def)
    moreover have "\<not> d < T" using d(2) by simp
    ultimately have "search_body pop (int (length pop)) T False (l, r, res) = (l, mid - 1, res)"
      by (simp add: search_body_def narrow_def mid_def Let_def)
    then have "search_loop pop (int (length pop)) T False (l, r, res)
               = search_loop pop (int (length pop)) T False (l, mid - 1, res)"
      using True by (subst search_loop.simps) simp
    moreover have "nat (mid - 1 - l + 1) < nat (r - l + 1)" using mid by linarith
    ultimately show ?thesis using less.hyps[of "mid - 1"] less.prems mid by simp
  qed
qed


text \<open>
  C8. With every date parseable: when no position is dated at or after the target, the
  search for the first such position returns the sentinel \<open>N + 1\<close>; when no position is
  dated before the target, the search for the last such position returns the sentinel 0.
\<close>

theorem binary_search_date_sentinels:
  fixes T :: "'d::linorder"
  shows "((\<forall>x \<in> set pop. \<exists>d. x = Some d \<and> d < T) \<longrightarrow>
            binary_search_date pop (int (length pop)) T True = Some (int (length pop) + 1)) \<and>
         ((\<forall>x \<in> set pop. \<exists>d. x = Some d \<and> T \<le> d) \<longrightarrow>
            binary_search_date pop (int (length pop)) T False = Some 0)"
  using all_before_loop[of pop T 1 "int (length pop)"] all_after_loop[of pop T 1 "int (length pop)"]
  by (simp add: binary_search_date_def)


theorem binary_search_date_sentinels_witness:
  "binary_search_date [Some (1::nat), Some 2, Some 3] (int (length [Some (1::nat), Some 2, Some 3])) 7 True
     = Some (int (length [Some (1::nat), Some 2, Some 3]) + 1) \<and>
   binary_search_date [Some (8::nat), Some 9] (int (length [Some (8::nat), Some 9])) 7 False = Some 0"
proof -
  have h1: "\<forall>x \<in> set [Some (1::nat), Some 2, Some 3]. \<exists>d. x = Some d \<and> d < 7" by simp
  have h2: "\<forall>x \<in> set [Some (8::nat), Some 9]. \<exists>d. x = Some d \<and> 7 \<le> d" by simp
  from binary_search_date_sentinels[of "[Some (1::nat), Some 2, Some 3]" 7] h1
  have "binary_search_date [Some (1::nat), Some 2, Some 3] (int (length [Some (1::nat), Some 2, Some 3])) 7 True
     = Some (int (length [Some (1::nat), Some 2, Some 3]) + 1)" by blast
  moreover from binary_search_date_sentinels[of "[Some (8::nat), Some 9]" 7] h2
  have "binary_search_date [Some (8::nat), Some 9] (int (length [Some (8::nat), Some 9])) 7 False = Some 0"
    by blast
  ultimately show ?thesis by blast
qed

subsection \<open>Unparseable midpoints\<close>

lemma probe_neighbors_char:
  "probe_neighbors pop N mid offs =
     (let cands = filter (\<lambda>p. 1 \<le> p \<and> p \<le> N) (map (\<lambda>off. mid + off) offs) in
      (takeWhile (\<lambda>p. get_message_date pop p = None) cands
         @ take 1 (dropWhile (\<lambda>p. get_message_date pop p = None) cands),
       map_option (\<lambda>p. (p, the (get_message_date pop p)))
         (find (\<lambda>p. get_message_date pop p \<noteq> None) cands)))"
  by (induction offs) (auto simp: Let_def split: option.splits prod.splits)


lemma search_body_unparseable:
  assumes "get_message_date pop ((left + right) div 2) = None"
  shows "search_body pop N T gte (left, right, result) =
     (case find (\<lambda>p. get_message_date pop p \<noteq> None)
             (filter (\<lambda>p. 1 \<le> p \<and> p \<le> N)
                (map (\<lambda>off. (left + right) div 2 + off) neighbor_offsets)) of
        Some p \<Rightarrow> narrow T gte p (the (get_message_date pop p)) left right result
      | None \<Rightarrow> ((left + right) div 2 + 10, right, result))"
  using assms
  by (simp add: search_body_def probe_neighbors_char Let_def split: option.splits)


text \<open>
  C9. When the date of the midpoint does not parse, the positions probed are those of
  \<open>mid + 1, mid - 1, mid + 2, mid - 2, mid + 5, mid - 5\<close> that lie in \<open>1..N\<close>, in that
  order, up to and including the first that yields a date; that position replaces the
  midpoint in the comparison. When none yields a date the left bound becomes
  \<open>mid + 10\<close>, which is beyond the old left bound, and the loop goes on from there.
\<close>

theorem unparseable_midpoint_probing:
  fixes T :: "'d::linorder"
  assumes "left \<le> right" and "get_message_date pop ((left + right) div 2) = None"
  shows "let mid = (left + right) div 2;
             undated = (\<lambda>p. get_message_date pop p = None);
             cands = filter (\<lambda>p. 1 \<le> p \<and> p \<le> N) [mid + 1, mid - 1, mid + 2, mid - 2, mid + 5, mid - 5]
         in fst (probe_neighbors pop N mid neighbor_offsets)
              = takeWhile undated cands @ take 1 (dropWhile undated cands) \<and>
            (case find (\<lambda>p. \<not> undated p) cands of
               Some p \<Rightarrow>
                 search_body pop N T gte (left, right, result)
                   = narrow T gte p (the (get_message_date pop p)) left right result
             | None \<Rightarrow>
                 search_body pop N T gte (left, right, result) = (mid + 10, right, result) \<and>
                 left < mid + 10 \<and>
                 search_loop pop N T gte (left, right, result)
                   = search_loop pop N T gte (mid + 10, right, result))"
proof -
  define mid where "mid = (left + right) div 2"
  define cands where "cands = filter (\<lambda>p. 1 \<le> p \<and> p \<le> N)
       [mid + 1, mid - 1, mid + 2, mid - 2, mid + 5, mid - 5]"
  have cands: "filter (\<lambda>p. 1 \<le> p \<and> p \<le> N) (map (\<lambda>off. mid + off) neighbor_offsets) = cands"
    by (simp add: cands_def neighbor_offsets_def)
  have unf: "search_loop pop N T gte (left, right, result)
        = search_loop pop N T gte (search_body pop N T gte (left, right, result))"
    using assms(1) by (subst search_loop.simps) simp
  have prog: "left < mid + 10" using assms(1) unfolding mid_def by linarith
  have probes: "fst (probe_neighbors pop N mid neighbor_offsets)
      = takeWhile (\<lambda>p. get_message_date pop p = None) cands
        @ take 1 (dropWhile (\<lambda>p. get_message_date pop p = None) cands)"
    by (simp only: probe_neighbors_char Let_def cands fst_conv)
  have body: "search_body pop N T gte (left, right, result) =
     (case find (\<lambda>p. get_message_date pop p \<noteq> None) cands of
        Some p \<Rightarrow> narrow T gte p (the (get_message_date pop p)) left right result
      | None \<Rightarrow> (mid + 10, right, result))"
    using search_body_unparseable[OF assms(2), of N T gte result] cands
    by (simp only: mid_def)
  have "case find (\<lambda>p. get_message_date pop p \<noteq> None) cands of
               Some p \<Rightarrow>
                 search_body pop N T gte (left, right, result)
                   = narrow T gte p (the (get_message_date pop p)) left right result
             | None \<Rightarrow>
                 search_body pop N T gte (left, right, result) = (mid + 10, right, result) \<and>
                 left < mid + 10 \<and>
                 search_loop pop N T gte (left, right, result)
                   = search_loop pop N T gte (mid + 10, right, result)"
    using body prog unf by (cases "find (\<lambda>p. get_message_date pop p \<noteq> None) cands") simp_all
  with probes show ?thesis
    unfolding Let_def mid_def[symmetric] cands_def[symmetric] by simp
qed

text \<open>
  A mailbox of five messages of which only the first and the last have a date: the
  midpoint 3 has none, positions 4 and 2 are probed without success, position 5 yields a
  date and is adopted. A mailbox of three undated messages: the left bound jumps from 1
  to 12.
\<close>

theorem unparseable_midpoint_probing_witness:
  "(1::int) \<le> 5 \<and>
   get_message_date [Some (10::int), None, None, None, Some 90] ((1 + 5) div 2) = None \<and>
   fst (probe_neighbors [Some (10::int), None, None, None, Some 90] 5 3 neighbor_offsets) = [4, 2, 5] \<and>
   search_body [Some (10::int), None, None, None, Some 90] 5 50 True (1, 5, 6) = (1, 4, 5) \<and>
   get_message_date [None, None, None :: int option] ((1 + 3) div 2) = None \<and>
   search_body [None, None, None :: int option] 3 50 True (1, 3, 4) = (12, 3, 4)"
proof -
  let ?pop = "[Some (10::int), None, None, None, Some 90]"
  let ?none = "[None, None, None :: int option]"
  have g: "get_message_date ?pop 4 = None" "get_message_date ?pop 2 = None"
    "get_message_date ?pop 5 = Some 90" "get_message_date ?pop 3 = None"
    "get_message_date ?none p = None" for p
    by (simp_all add: get_message_date_def nth_Cons')
  have m: "(1 + 5) div 2 = (3::int)" "(1 + 3) div 2 = (2::int)" by simp_all
  have c: "filter (\<lambda>p. 1 \<le> p \<and> p \<le> 5) [3 + 1, 3 - 1, 3 + 2, 3 - 2, 3 + 5, 3 - 5] = [4, 2, 5, 1::int]"
    by simp
  have f: "find (\<lambda>p. get_message_date ?pop p \<noteq> None) [4, 2, 5, 1] = Some 5"
    "find (\<lambda>p. get_message_date ?none p \<noteq> None) xs = None" for xs
    by (simp_all add: g find_None_iff)
  have tw: "takeWhile (\<lambda>p. get_message_date ?pop p = None) [4, 2, 5, 1] = [4, 2]"
    "dropWhile (\<lambda>p. get_message_date ?pop p = None) [4, 2, 5, 1] = [5, 1]"
    by (simp_all add: g)
  have h1: "(1::int) \<le> 5" and h1': "(1::int) \<le> 3" by simp_all
  have h2: "get_message_date ?pop ((1 + 5) div 2) = None" by (simp add: g)
  have h3: "get_message_date ?none ((1 + 3) div 2) = None" by (simp add: g)
  have a: "fst (probe_neighbors ?pop 5 3 neighbor_offsets) = [4, 2, 5] \<and>
           search_body ?pop 5 50 True (1, 5, 6) = (1, 4, 5)"
    using unparseable_midpoint_probing[OF h1 h2, of 5 50 True 6, unfolded Let_def m c f tw]
    by (simp add: narrow_def g)
  have b: "search_body ?none 3 50 True (1, 3, 4) = (12, 3, 4)"
    using unparseable_midpoint_probing[OF h1' h3, of 3 50 True 4, unfolded Let_def m f]
    by simp
  from a b h1 h2 h3 show ?thesis by blast
qed

section \<open>Properties of the batch delete engine\<close>

lemma batch_size_le_50: "batch_size config \<le> 50"
  by (simp add: batch_size_def)

lemma mark_messages_sent_length:
  "length (snd (snd (mark_messages errs ps m e))) \<le> length ps"
  by (induction errs ps m e rule: mark_messages.induct) (auto split: prod.splits)

text \<open>A property that every pass keeps and that holds at the start holds when the loop ends.\<close>

lemma delete_loop_invariant:
  assumes "delete_loop config m sp st cs = Some (Inr (reason, st'))"
    and "P st"
    and "\<And>s c s'. P s \<Longrightarrow> delete_cycle config m sp s c = Continue s' \<Longrightarrow> P s'"
    and "\<And>s c s'. P s \<Longrightarrow> delete_cycle config m sp s c = Break reason s' \<Longrightarrow> Q s'"
  shows "Q st'"
  using assms(1,2)
proof (induction cs arbitrary: st)
  case Nil
  then show ?case by simp
next
  case (Cons c cs)
  show ?case
  proof (cases "delete_cycle config m sp st c")
    case (Continue s1)
    with Cons.prems(1) have "delete_loop config m sp s1 cs = Some (Inr (reason, st'))" by simp
    moreover have "P s1" using assms(3)[OF Cons.prems(2) Continue] .
    ultimately show ?thesis by (rule Cons.IH)
  next
    case (Break r s1)
    with Cons.prems(1) have "r = reason" "s1 = st'" by simp_all
    with Break assms(4)[OF Cons.prems(2)] show ?thesis by simp
  next
    case (Raise e)
    with Cons.prems(1) show ?thesis by simp
  qed
qed

text \<open>The shape of one pass, case by case.\<close>

lemma connection_failure_cases:
  "connection_failure st =
     (if consecutive_failures st + 1 \<ge> max_failures
      then Break Too_many_failures (st\<lparr>consecutive_failures := consecutive_failures st + 1\<rparr>)
      else Continue (st\<lparr>consecutive_failures := consecutive_failures st + 1,
                        events := events st @ [Waiting (connect_wait (consecutive_failures st + 1))]\<rparr>))"
  by (simp add: connection_failure_def Let_def)

lemma commit_failure_cases:
  "commit_failure st =
     (if consecutive_failures st + 1 \<ge> max_failures
      then Break Too_many_failures (st\<lparr>consecutive_failures := consecutive_failures st + 1,
                                       events := events st @ [Quit_cmd False]\<rparr>)
      else Continue (st\<lparr>consecutive_failures := consecutive_failures st + 1,
                        events := events st @ [Quit_cmd False,
                                     Waiting (commit_wait (consecutive_failures st + 1))]\<rparr>))"
  by (simp add: commit_failure_def Let_def)

lemma delete_cycle_Counted:
  "delete_cycle config m sp st (Counted n df qf) =
     (let st1 = st\<lparr>initial_count := Some (first_count st n), num_messages := Some n\<rparr> in
      if n = 0 then quit_and_break qf Mailbox_empty st1
      else if m \<le> first_count st n - n then quit_and_break qf Target_reached st1
      else if n < sp then quit_and_break qf Start_beyond_mailbox st1
      else if batch_size config \<le> 0 then quit_and_break qf Empty_batch st1
      else
        (let sent = snd (snd (mark_messages df
                     [sp .. sp + min (min (batch_size config) (m - (first_count st n - n))) (n - sp + 1) - 1] 0 0));
             st2 = st1\<lparr>events := events st1 @ [Dele_cmds sent]\<rparr> in
         if qf then commit_failure st2
         else Continue (st2\<lparr>consecutive_failures := 0,
                            events := events st2 @ [Quit_cmd True, Pausing 3]\<rparr>)))"
  by (auto simp: delete_cycle_def first_count_def Let_def split: prod.splits option.splits)


lemma quit_and_break_cases:
  "quit_and_break qf reason st = Continue s' \<longleftrightarrow> False"
  "quit_and_break qf reason st = Break r s' \<longleftrightarrow> \<not> qf \<and> r = reason \<and> s' = st"
  by (auto simp: quit_and_break_def)



lemma cycle_Break_done:
  assumes "delete_cycle config m sp s c = Break reason s'" and "reason \<noteq> Too_many_failures"
  shows "\<exists>c0 n. initial_count s' = Some c0 \<and> num_messages s' = Some n \<and>
           (n = 0 \<or> m \<le> c0 - n \<or> n < sp \<or> batch_size config \<le> 0)"
proof (cases c)
  case Connect_refused
  with assms show ?thesis
    by (auto simp: delete_cycle_def connection_failure_cases split: if_splits)
next
  case Stat_failed
  with assms show ?thesis
    by (auto simp: delete_cycle_def connection_failure_cases split: if_splits)
next
  case (Counted n df qf)
  with assms show ?thesis
    by (auto simp: delete_cycle_Counted Let_def quit_and_break_cases commit_failure_cases
          split: if_splits)
qed

lemma done_step_Counted:
  "done_step (delete_cycle config m sp s (Counted n df False)) \<longleftrightarrow>
     (n = 0 \<or> m \<le> first_count s n - n \<or> n < sp \<or> batch_size config \<le> 0)"
  by (auto simp: delete_cycle_Counted Let_def quit_and_break_def done_step_def)

text \<open>What a pass does to the two counts.\<close>

lemma cycle_counts:
  assumes "delete_cycle config m sp s c = Continue s' \<or> delete_cycle config m sp s c = Break r s'"
  shows "(case c of
            Counted n df qf \<Rightarrow> initial_count s' = Some (first_count s n) \<and> num_messages s' = Some n
          | _ \<Rightarrow> initial_count s' = initial_count s \<and> num_messages s' = num_messages s)"
proof (cases c)
  case Connect_refused
  with assms show ?thesis
    by (auto simp: delete_cycle_def connection_failure_cases split: if_splits)
next
  case Stat_failed
  with assms show ?thesis
    by (auto simp: delete_cycle_def connection_failure_cases split: if_splits)
next
  case (Counted n df qf)
  with assms show ?thesis
    by (auto simp: delete_cycle_Counted Let_def quit_and_break_cases commit_failure_cases
          split: if_splits)
qed

lemma loop_counts:
  assumes "delete_loop config m sp st cs = Some (Inr (r, st'))"
  shows "(initial_count st' = initial_count st \<and> num_messages st' = num_messages st) \<or>
         (\<exists>n \<in> set (observed_counts cs). num_messages st' = Some n \<and>
            initial_count st' = Some (first_count st (hd (observed_counts cs))))"
  using assms
proof (induction cs arbitrary: st)
  case Nil
  then show ?case by simp
next
  case (Cons c cs)
  show ?case
  proof (cases "delete_cycle config m sp st c")
    case (Raise e)
    with Cons.prems show ?thesis by simp
  next
    case (Break r1 s1)
    with Cons.prems have eq: "s1 = st'" by simp
    from cycle_counts[of config m sp st c s1 r1] Break eq show ?thesis
      by (cases c) auto
  next
    case (Continue s1)
    with Cons.prems have "delete_loop config m sp s1 cs = Some (Inr (r, st'))" by simp
    from Cons.IH[OF this] have IH:
      "(initial_count st' = initial_count s1 \<and> num_messages st' = num_messages s1) \<or>
       (\<exists>n \<in> set (observed_counts cs). num_messages st' = Some n \<and>
          initial_count st' = Some (first_count s1 (hd (observed_counts cs))))" .
    from cycle_counts[of config m sp st c s1 r] Continue
    have cc: "(case c of
            Counted n df qf \<Rightarrow> initial_count s1 = Some (first_count st n) \<and> num_messages s1 = Some n
          | _ \<Rightarrow> initial_count s1 = initial_count st \<and> num_messages s1 = num_messages st)"
      by simp
    show ?thesis
    proof (cases c)
      case Connect_refused
      with cc IH show ?thesis by (auto simp: first_count_def)
    next
      case Stat_failed
      with cc IH show ?thesis by (auto simp: first_count_def)
    next
      case (Counted n df qf)
      with cc IH show ?thesis by (auto simp: first_count_def)
    qed
  qed
qed

lemma run_cases:
  assumes "delete_messages_robust config m sp answers final = Some (Inr (returned, reason, st))"
  shows "delete_loop config m sp initial_dstate answers = Some (Inr (reason, st))"
    and "final_count_phase st final = Inr returned"
  using assms
  by (auto simp: delete_messages_robust_def split: option.splits sum.splits)

text \<open>The returned value, in terms of the counts read from the server.\<close>

lemma total_deleted_observed:
  assumes "delete_messages_robust config m sp answers final = Some (Inr (returned, reason, st))"
  shows "(initial_count st = None \<longrightarrow> returned = 0) \<and>
         (\<forall>c0. initial_count st = Some c0 \<longrightarrow>
            observed_counts answers \<noteq> [] \<and> c0 = hd (observed_counts answers) \<and>
            (\<exists>n \<in> set (observed_counts answers). num_messages st = Some n \<and>
               returned = (if c0 = 0 then 0 else c0 - (case final of Some final_count \<Rightarrow> final_count | None \<Rightarrow> n))))"
proof -
  note run = run_cases[OF assms]
  from loop_counts[OF run(1)]
  have counts: "(initial_count st = None \<and> num_messages st = None) \<or>
         (\<exists>n \<in> set (observed_counts answers). num_messages st = Some n \<and>
            initial_count st = Some (hd (observed_counts answers)))"
    by (simp add: initial_dstate_def first_count_def)
  show ?thesis
  proof (cases "initial_count st")
    case None
    with run(2) show ?thesis by (simp add: final_count_phase_def split: option.splits)
  next
    case (Some c0)
    with counts obtain n where n: "n \<in> set (observed_counts answers)" "num_messages st = Some n"
      "c0 = hd (observed_counts answers)" by auto
    then have "observed_counts answers \<noteq> []" by auto
    moreover have "returned = (if c0 = 0 then 0 else c0 - (case final of Some final_count \<Rightarrow> final_count | None \<Rightarrow> n))"
      using run(2) Some n(2) by (auto simp: final_count_phase_def split: option.splits if_splits)
    ultimately show ?thesis using Some n by auto
  qed
qed

subsection \<open>The errors of \<^verbatim>\<open>DELE\<close> change the commands sent and nothing else\<close>

lemma failure_same_step:
  assumes "core s = core t"
  shows "same_step (connection_failure s) (connection_failure t)"
    and "same_step (commit_failure s) (commit_failure t)"
  using assms by (auto simp: connection_failure_cases commit_failure_cases core_def)

lemma cycle_same_step:
  assumes "core s = core t"
  shows "same_step (delete_cycle config m sp s c) (delete_cycle config m sp t (without_dele_errors c))"
proof (cases c)
  case Connect_refused
  then show ?thesis using failure_same_step(1)[OF assms] by (simp add: delete_cycle_def)
next
  case Stat_failed
  then show ?thesis using failure_same_step(1)[OF assms] by (simp add: delete_cycle_def)
next
  case (Counted n df qf)
  have fc: "first_count s n = first_count t n" using assms by (simp add: core_def first_count_def)
  show ?thesis
    unfolding Counted without_dele_errors.simps delete_cycle_Counted Let_def fc
    using assms fc
    by (auto simp: quit_and_break_def intro!: failure_same_step(2)) (auto simp: core_def)
qed

lemma loop_same:
  assumes "core s = core t"
  shows "rel_option (rel_sum (=) (\<lambda>(r, a) (r', b). r = r' \<and> core a = core b))
           (delete_loop config m sp s cs)
           (delete_loop config m sp t (map without_dele_errors cs))"
  using assms
proof (induction cs arbitrary: s t)
  case Nil
  then show ?case by simp
next
  case (Cons c cs)
  from cycle_same_step[OF Cons.prems]
  have st: "same_step (delete_cycle config m sp s c) (delete_cycle config m sp t (without_dele_errors c))" .
  show ?case
  proof (cases "delete_cycle config m sp s c")
    case (Continue a)
    with st obtain b where b: "delete_cycle config m sp t (without_dele_errors c) = Continue b"
      "core a = core b"
      by (cases "delete_cycle config m sp t (without_dele_errors c)") auto
    with Continue Cons.IH[OF b(2)] show ?thesis by simp
  next
    case (Break r a)
    with st obtain b where b: "delete_cycle config m sp t (without_dele_errors c) = Break r b"
      "core a = core b"
      by (cases "delete_cycle config m sp t (without_dele_errors c)") auto
    with Break show ?thesis by simp
  next
    case (Raise e)
    with st have "delete_cycle config m sp t (without_dele_errors c) = Raise e"
      by (cases "delete_cycle config m sp t (without_dele_errors c)") auto
    with Raise show ?thesis by simp
  qed
qed

lemma final_count_phase_core:
  "core a = core b \<Longrightarrow> final_count_phase a final = final_count_phase b final"
  by (auto simp: core_def final_count_phase_def split: option.splits)

lemma dele_errors_irrelevant:
  "outcome (delete_messages_robust config m sp (map without_dele_errors answers) final)
   = outcome (delete_messages_robust config m sp answers final)"
proof -
  from loop_same[of initial_dstate initial_dstate config m sp answers]
  have rel: "rel_option (rel_sum (=) (\<lambda>(r, a) (r', b). r = r' \<and> core a = core b))
           (delete_loop config m sp initial_dstate answers)
           (delete_loop config m sp initial_dstate (map without_dele_errors answers))" by simp
  show ?thesis
  proof (cases "delete_loop config m sp initial_dstate answers")
    case None
    with rel show ?thesis by (simp add: delete_messages_robust_def outcome_def)
  next
    case (Some x)
    with rel obtain y where y: "delete_loop config m sp initial_dstate (map without_dele_errors answers) = Some y"
      "rel_sum (=) (\<lambda>(r, a) (r', b). r = r' \<and> core a = core b) x y"
      by (auto simp: option_rel_Some1)
    show ?thesis
    proof (cases x)
      case (Inl e)
      with y Some show ?thesis by (cases y) (auto simp: delete_messages_robust_def outcome_def)
    next
      case (Inr p)
      obtain r a where p: "p = (r, a)" by (cases p)
      with y Inr obtain b where b: "y = Inr (r, b)" "core a = core b" by (cases y) auto
      from final_count_phase_core[OF b(2), of final] Some y(1) Inr p b(1)
      show ?thesis
        by (cases "final_count_phase b final") (auto simp: delete_messages_robust_def outcome_def)
    qed
  qed
qed

subsection \<open>Progress and the value returned\<close>

text \<open>
  C3, as the code has it. In every run that returns: when the loop did not end on the
  failure ceiling, the last count read \<open>n\<close> and the first count read \<open>c0\<close> satisfy
  \<open>n = 0\<close>, or \<open>c0 - n\<close> has reached the target, or the start position lies beyond \<open>n\<close>,
  or the batch size is not positive; a pass whose count is read and whose \<^verbatim>\<open>QUIT\<close> is
  accepted ends the loop exactly in these four cases, with \<open>actual_deleted\<close> computed as
  first count minus current count. The value returned is 0 when no count was read or
  the first count is 0, and otherwise the first count minus the final count (when the
  final count can be read) or minus the last count read in the loop. The errors of
  \<^verbatim>\<open>DELE\<close>, hence the tally of marks, do not change the value returned nor the way the
  loop ends.
\<close>

theorem progress_from_observed_counts:
  assumes "delete_messages_robust config m sp answers final = Some (Inr (returned, reason, st))"
  shows "(reason \<noteq> Too_many_failures \<longrightarrow>
            (\<exists>c0 n. initial_count st = Some c0 \<and> num_messages st = Some n \<and>
               (n = 0 \<or> m \<le> c0 - n \<or> n < sp \<or> batch_size config \<le> 0))) \<and>
         (\<forall>s n df. done_step (delete_cycle config m sp s (Counted n df False)) \<longleftrightarrow>
            (n = 0 \<or> m \<le> first_count s n - n \<or> n < sp \<or> batch_size config \<le> 0)) \<and>
         (initial_count st = None \<longrightarrow> returned = 0) \<and>
         (\<forall>c0. initial_count st = Some c0 \<longrightarrow>
            observed_counts answers \<noteq> [] \<and> c0 = hd (observed_counts answers) \<and>
            (\<exists>n \<in> set (observed_counts answers). num_messages st = Some n \<and>
               returned = (if c0 = 0 then 0
                           else c0 - (case final of Some final_count \<Rightarrow> final_count | None \<Rightarrow> n)))) \<and>
         outcome (delete_messages_robust config m sp (map without_dele_errors answers) final)
           = Some (Inr (returned, reason))"
proof -
  note run = run_cases[OF assms]
  have a: "reason \<noteq> Too_many_failures \<longrightarrow>
            (\<exists>c0 n. initial_count st = Some c0 \<and> num_messages st = Some n \<and>
               (n = 0 \<or> m \<le> c0 - n \<or> n < sp \<or> batch_size config \<le> 0))"
  proof
    assume ne: "reason \<noteq> Too_many_failures"
    show "\<exists>c0 n. initial_count st = Some c0 \<and> num_messages st = Some n \<and>
               (n = 0 \<or> m \<le> c0 - n \<or> n < sp \<or> batch_size config \<le> 0)"
      using run(1)
    proof (rule delete_loop_invariant[where P = "\<lambda>s. True"])
      show True ..
    next
      fix s c s' assume "delete_cycle config m sp s c = Break reason s'"
      from cycle_Break_done[OF this ne]
      show "\<exists>c0 n. initial_count s' = Some c0 \<and> num_messages s' = Some n \<and>
               (n = 0 \<or> m \<le> c0 - n \<or> n < sp \<or> batch_size config \<le> 0)" .
    qed simp
  qed
  have b: "outcome (delete_messages_robust config m sp (map without_dele_errors answers) final)
           = Some (Inr (returned, reason))"
  proof -
    have "outcome (delete_messages_robust config m sp answers final) = Some (Inr (returned, reason))"
      by (simp add: assms outcome_def)
    then show ?thesis by (simp only: dele_errors_irrelevant)
  qed
  from a b total_deleted_observed[OF assms] done_step_Counted[of config m sp]
  show ?thesis by blast
qed

theorem progress_from_observed_counts_witness:
  "delete_messages_robust \<lparr>BATCH_SIZE = None\<rparr> 3 1
     [Counted 5 [2] True, Counted 5 [] False, Counted 2 [] False] (Some 2)
     = Some (Inr (3, Target_reached,
         \<lparr>initial_count = Some 5, num_messages = Some 2, consecutive_failures = 0,
          events = [Dele_cmds [1, 2, 3], Quit_cmd False, Waiting 60,
                    Dele_cmds [1, 2, 3], Quit_cmd True, Pausing 3]\<rparr>)) \<and>
   outcome (delete_messages_robust \<lparr>BATCH_SIZE = None\<rparr> 3 1
     (map without_dele_errors [Counted 5 [2] True, Counted 5 [] False, Counted 2 [] False]) (Some 2))
     = Some (Inr (3, Target_reached))"
proof -
  have run: "delete_messages_robust \<lparr>BATCH_SIZE = None\<rparr> 3 1
     [Counted 5 [2] True, Counted 5 [] False, Counted 2 [] False] (Some 2)
     = Some (Inr (3, Target_reached,
         \<lparr>initial_count = Some 5, num_messages = Some 2, consecutive_failures = 0,
          events = [Dele_cmds [1, 2, 3], Quit_cmd False, Waiting 60,
                    Dele_cmds [1, 2, 3], Quit_cmd True, Pausing 3]\<rparr>))"
    by code_simp
  from progress_from_observed_counts[OF run] run show ?thesis by blast
qed

text \<open>
  The loop also ends, without failure, on a start position beyond the mailbox: target
  10, start position 5, counts 10 and then 4. And a first count of 0 makes the function
  return 0 whatever the final count is.
\<close>

theorem done_without_target_counterexample:
  "delete_messages_robust \<lparr>BATCH_SIZE = None\<rparr> 10 5 [Counted 10 [] False, Counted 4 [] False] (Some 4)
     = Some (Inr (6, Start_beyond_mailbox,
         \<lparr>initial_count = Some 10, num_messages = Some 4, consecutive_failures = 0,
          events = [Dele_cmds [5, 6, 7, 8, 9, 10], Quit_cmd True, Pausing 3]\<rparr>)) \<and>
   \<not> (10 \<le> (10::int) - 4 \<or> (4::int) = 0) \<and>
   delete_messages_robust \<lparr>BATCH_SIZE = None\<rparr> 1 1 [Counted 0 [] False] (Some 3)
     = Some (Inr (0, Mailbox_empty,
         \<lparr>initial_count = Some 0, num_messages = Some 0, consecutive_failures = 0, events = []\<rparr>)) \<and>
   (0::int) \<noteq> 0 - 3"
  by code_simp

subsection \<open>The failure ceiling\<close>





subsection \<open>Backoff\<close>

text \<open>
  C5. For \<open>f \<ge> 1\<close> consecutive failures the wait is \<open>min (30 * f) 120\<close> after a failed
  connection or count and \<open>min (60 * f) 300\<close> after a failed commit, the second larger
  than the first; both are non-decreasing in \<open>f\<close> and equal to their cap once
  \<open>base * f\<close> reaches it. These are the waits of a pass that fails below the ceiling.
\<close>

theorem backoff_wait:
  assumes "1 \<le> f"
  shows "connect_wait f = min (30 * f) 120 \<and> commit_wait f = min (60 * f) 300 \<and>
         connect_wait f < commit_wait f \<and>
         (f \<le> g \<longrightarrow> connect_wait f \<le> connect_wait g \<and> commit_wait f \<le> commit_wait g) \<and>
         (120 \<le> 30 * f \<longrightarrow> connect_wait f = 120) \<and>
         (300 \<le> 60 * f \<longrightarrow> commit_wait f = 300) \<and>
         (consecutive_failures st + 1 = f \<and> f < max_failures \<longrightarrow>
            delete_cycle config m sp st Connect_refused
              = Continue (st\<lparr>consecutive_failures := f,
                              events := events st @ [Waiting (connect_wait f)]\<rparr>) \<and>
            delete_cycle config m sp st Stat_failed
              = Continue (st\<lparr>consecutive_failures := f,
                              events := events st @ [Waiting (connect_wait f)]\<rparr>) \<and>
            (n \<noteq> 0 \<and> first_count st n - n < m \<and> sp \<le> n \<and> 0 < batch_size config \<longrightarrow>
               (\<exists>sent. delete_cycle config m sp st (Counted n df True)
                  = Continue (st\<lparr>initial_count := Some (first_count st n), num_messages := Some n,
                                  consecutive_failures := f,
                                  events := events st @ [Dele_cmds sent, Quit_cmd False,
                                                         Waiting (commit_wait f)]\<rparr>))))"
proof -
  have arith: "connect_wait f = min (30 * f) 120 \<and> commit_wait f = min (60 * f) 300 \<and>
         connect_wait f < commit_wait f \<and>
         (f \<le> g \<longrightarrow> connect_wait f \<le> connect_wait g \<and> commit_wait f \<le> commit_wait g) \<and>
         (120 \<le> 30 * f \<longrightarrow> connect_wait f = 120) \<and>
         (300 \<le> 60 * f \<longrightarrow> commit_wait f = 300)"
    using assms by (auto simp: connect_wait_def commit_wait_def)
  have cyc: "delete_cycle config m sp st Connect_refused
              = Continue (st\<lparr>consecutive_failures := f,
                              events := events st @ [Waiting (connect_wait f)]\<rparr>) \<and>
            delete_cycle config m sp st Stat_failed
              = Continue (st\<lparr>consecutive_failures := f,
                              events := events st @ [Waiting (connect_wait f)]\<rparr>)"
    if "consecutive_failures st + 1 = f" "f < max_failures"
    using that by (auto simp: delete_cycle_def connection_failure_cases)
  have com: "\<exists>sent. delete_cycle config m sp st (Counted n df True)
                  = Continue (st\<lparr>initial_count := Some (first_count st n), num_messages := Some n,
                                  consecutive_failures := f,
                                  events := events st @ [Dele_cmds sent, Quit_cmd False,
                                                         Waiting (commit_wait f)]\<rparr>)"
    if "consecutive_failures st + 1 = f" "f < max_failures"
       "n \<noteq> 0" "first_count st n - n < m" "sp \<le> n" "0 < batch_size config"
    using that by (auto simp: delete_cycle_Counted Let_def commit_failure_cases)
  from arith cyc com show ?thesis by blast
qed

theorem backoff_wait_witness:
  "(1::int) \<le> 2 \<and> connect_wait 2 = 60 \<and> commit_wait 2 = 120 \<and>
   connect_wait 2 \<le> connect_wait 7 \<and> connect_wait 7 = 120 \<and> commit_wait 7 = 300 \<and>
   delete_cycle \<lparr>BATCH_SIZE = None\<rparr> 10 1
     \<lparr>initial_count = Some 9, num_messages = Some 9, consecutive_failures = 1, events = []\<rparr>
     Connect_refused
   = Continue \<lparr>initial_count = Some 9, num_messages = Some 9, consecutive_failures = 2,
               events = [Waiting 60]\<rparr>"
proof -
  have h: "(1::int) \<le> 2" "(1::int) \<le> 7" by simp_all
  have c: "connect_wait 2 = 60" "commit_wait 2 = 120" "connect_wait 7 = 120" "commit_wait 7 = 300"
    by (simp_all add: connect_wait_def commit_wait_def)
  have f: "consecutive_failures
      \<lparr>initial_count = Some 9, num_messages = Some 9, consecutive_failures = 1, events = []\<rparr> + 1 = 2
      \<and> 2 < max_failures"
    by (simp add: max_failures_def)
  from backoff_wait[OF h(1), of 7
      "\<lparr>initial_count = Some 9, num_messages = Some 9, consecutive_failures = 1, events = []\<rparr>"
      "\<lparr>BATCH_SIZE = None\<rparr>" 10 1] backoff_wait[OF h(2), of 7] f c h
  show ?thesis by simp
qed

section \<open>Properties of the backup pipeline\<close>

subsection \<open>The download and the ZIP writes\<close>

lemma content_make_entry [simp]: "content (make_entry i m d) = m"
  by (simp add: content_def make_entry_def split: option.splits prod.splits)

lemma retr_Some:
  "retr mbox errs i = Some m \<Longrightarrow> 1 \<le> i \<and> i \<le> int (length mbox) \<and> m = mbox ! nat (i - 1) \<and> i \<notin> set errs"
  by (auto simp: retr_def split: if_splits)

lemma download_acc:
  assumes "download mbox errs done ps be bn f = (be', bn', f', sent)"
  shows "\<exists>nb nn. be' = be @ nb \<and> bn' = bn @ nn \<and> length nb = length nn \<and>
           map content nb = messages_at mbox nn \<and>
           set nn \<subseteq> set ps \<and> (\<forall>i \<in> set nn. 1 \<le> i \<and> i \<le> int (length mbox)) \<and>
           (distinct ps \<longrightarrow> distinct nn) \<and> f \<le> f'"
  using assms
proof (induction ps arbitrary: be bn f be' bn' f' sent)
  case Nil
  then show ?case by (simp add: messages_at_def)
next
  case (Cons p ps)
  show ?case
  proof (cases "retr mbox errs p")
    case (Some m)
    let ?e = "make_entry (done + int (length be) + 1) m (get_message_date (map msg_date mbox) p)"
    from Cons.prems Some obtain sent' where
      d: "download mbox errs done ps (be @ [?e]) (bn @ [p]) f = (be', bn', f', sent')"
      by (auto simp: Let_def split: prod.splits)
    from Cons.IH[OF d] obtain nb nn where
      IH: "be' = (be @ [?e]) @ nb" "bn' = (bn @ [p]) @ nn" "length nb = length nn"
        "map content nb = messages_at mbox nn" "set nn \<subseteq> set ps"
        "\<forall>i \<in> set nn. 1 \<le> i \<and> i \<le> int (length mbox)" "distinct ps \<longrightarrow> distinct nn" "f \<le> f'"
      by blast
    from retr_Some[OF Some] IH show ?thesis
      by (intro exI[of _ "?e # nb"] exI[of _ "p # nn"]) (auto simp: messages_at_def)
  next
    case None
    show ?thesis
    proof (cases "f + 1 \<ge> max_failures")
      case True
      with Cons.prems None show ?thesis by (auto simp: messages_at_def)
    next
      case False
      with Cons.prems None obtain sent' where
        d: "download mbox errs done ps be bn (f + 1) = (be', bn', f', sent')"
        by (auto split: prod.splits)
      from Cons.IH[OF d] show ?thesis by fastforce
    qed
  qed
qed

lemma download_sent:
  assumes "download mbox errs done ps be bn f = (be', bn', f', sent)"
  shows "length sent \<le> length ps \<and> (ps \<noteq> [] \<longrightarrow> sent \<noteq> [] \<and> hd sent = hd ps)"
  using assms
proof (induction ps arbitrary: be bn f be' bn' f' sent)
  case Nil
  then show ?case by simp
next
  case (Cons p ps)
  show ?case
  proof (cases "retr mbox errs p")
    case (Some m)
    with Cons.prems obtain sent' where
      d: "download mbox errs done ps
            (be @ [make_entry (done + int (length be) + 1) m (get_message_date (map msg_date mbox) p)])
            (bn @ [p]) f = (be', bn', f', sent')" and s: "sent = p # sent'"
      by (auto simp: Let_def split: prod.splits)
    from Cons.IH[OF d] s show ?thesis by simp
  next
    case None
    show ?thesis
    proof (cases "f + 1 \<ge> max_failures")
      case True
      with Cons.prems None show ?thesis by auto
    next
      case False
      with Cons.prems None obtain sent' where
        d: "download mbox errs done ps be bn (f + 1) = (be', bn', f', sent')" and s: "sent = p # sent'"
        by (auto split: prod.splits)
      from Cons.IH[OF d] s show ?thesis by simp
    qed
  qed
qed

lemma add_to_zip_mset:
  "mset (concat (map snd (add_to_zip groups e))) = mset (concat (map snd groups)) + {#e#}"
  by (induction groups e rule: add_to_zip.induct) auto

lemma foldl_add_to_zip_mset:
  "mset (concat (map snd (foldl add_to_zip groups es))) = mset (concat (map snd groups)) + mset es"
  by (induction es arbitrary: groups) (auto simp: add_to_zip_mset)

lemma write_order_mset: "mset (write_order es) = mset es"
  by (simp add: write_order_def batch_by_zip_def foldl_add_to_zip_mset)

lemma write_order_set: "set (write_order es) = set es"
  using write_order_mset[of es] by (metis set_mset_mset)

lemma write_order_length: "length (write_order es) = length es"
  using write_order_mset[of es] by (metis size_mset)

subsection \<open>One pass\<close>

lemma backup_loop_invariant:
  assumes "backup_loop sp da st as = Some st'"
    and "P st"
    and "\<And>s a. P s \<Longrightarrow> a \<in> set as \<Longrightarrow> remaining s > 0 \<Longrightarrow> P (state_of (backup_cycle sp da s a))"
  shows "P st'"
  using assms
proof (induction as arbitrary: st)
  case Nil
  then show ?case by (simp split: if_splits)
next
  case (Cons a as)
  show ?case
  proof (cases "remaining st > 0")
    case False
    with Cons.prems(1,2) show ?thesis by simp
  next
    case True
    from Cons.prems(3)[OF Cons.prems(2) _ True, of a]
    have P1: "P (state_of (backup_cycle sp da st a))" by simp
    show ?thesis
    proof (cases "backup_cycle sp da st a")
      case (Stop s1)
      with Cons.prems(1) True P1 show ?thesis by (simp add: state_of_def)
    next
      case (Next s1)
      with Cons.prems(1) True have "backup_loop sp da s1 as = Some st'" by simp
      moreover from Next P1 have "P s1" by (simp add: state_of_def)
      ultimately show ?thesis
        using Cons.prems(3) by (intro Cons.IH[of s1]) auto
    qed
  qed
qed

lemma backup_cycle_Served:
  "backup_cycle sp da st (Served rf df qf) =
     (let first = current_start da sp (backed_up st); n = int (length (mailbox st)) in
      if first > n then Stop st
      else
        (let batch_end = first + min (min 50 (remaining st)) (n - first + 1) - 1;
             r = download (mailbox st) rf (backed_up st) [first .. batch_end] [] [] (failures st);
             st1 = st\<lparr>failures := fst (snd (snd r)),
                       trace := trace st @ [Downloading first batch_end, Retr_cmds (snd (snd (snd r)))]\<rparr> in
         if fst (snd (snd r)) \<ge> max_failures then Stop st1
         else Next (write_and_commit da df qf (fst r) (fst (snd r)) st1)))"
  by (simp add: backup_cycle_def Let_def split: prod.splits)

lemma write_and_commit_fields:
  "archive (write_and_commit da df qf be bn st) = archive st @ write_order be"
  "trace (write_and_commit da df qf be bn st) = trace st @ map Zip_write (write_order be) @
     (if da \<and> bn \<noteq> [] then
        Dele_sent bn #
        (if qf then [Commit False (messages_at (mailbox st) (filter (\<lambda>i. i \<notin> set df) bn)),
                     Sleeping (30 * (failures st + 1))]
         else Commit True (messages_at (mailbox st) (filter (\<lambda>i. i \<notin> set df) bn)) #
              (if remaining st - int (length be) > 0 then [Sleeping 2] else []))
      else (if remaining st - int (length be) > 0 then [Sleeping 2] else []))"
  "mailbox (write_and_commit da df qf be bn st) =
     (if da \<and> bn \<noteq> [] \<and> \<not> qf then remove_marked (filter (\<lambda>i. i \<notin> set df) bn) 1 (mailbox st)
      else mailbox st)"
  "backed_up (write_and_commit da df qf be bn st) =
     (if da \<and> bn \<noteq> [] \<and> qf then backed_up st else backed_up st + int (length be))"
  "remaining (write_and_commit da df qf be bn st) =
     (if da \<and> bn \<noteq> [] \<and> qf then remaining st else remaining st - int (length be))"
  "deleted (write_and_commit da df qf be bn st) =
     (if da \<and> bn \<noteq> [] \<and> \<not> qf then deleted st + int (length bn) else deleted st)"
  "failures (write_and_commit da df qf be bn st) =
     (if da \<and> bn \<noteq> [] \<and> qf then failures st + 1 else 0)"
  by (simp_all add: write_and_commit_def Let_def)

lemma upto_first:
  assumes "(a::int) \<le> b"
  shows "[a .. b] \<noteq> [] \<and> hd [a .. b] = a"
  using assms by (simp add: upto.simps)

text \<open>
  C7. In a pass that reaches the download, the reads begin at \<open>start_pos\<close> when
  \<^verbatim>\<open>delete_after\<close> is set, whatever \<open>backed_up\<close> is, and at \<open>start_pos + backed_up\<close> when it
  is not: the announced range starts there and the first \<^verbatim>\<open>RETR\<close> is sent for that
  position.
\<close>

theorem batch_reads_start:
  assumes "remaining st > 0"
    and "(if delete_after then start_pos else start_pos + backed_up st) \<le> int (length (mailbox st))"
  shows "\<exists>batch_end sent rest.
           trace (state_of (backup_cycle start_pos delete_after st (Served rf df qf)))
             = trace st @ Downloading (if delete_after then start_pos else start_pos + backed_up st) batch_end
                 # Retr_cmds sent # rest \<and>
           sent \<noteq> [] \<and>
           hd sent = (if delete_after then start_pos else start_pos + backed_up st)"
proof -
  define first where "first = (if delete_after then start_pos else start_pos + backed_up st)"
  define n where "n = int (length (mailbox st))"
  define batch_end where "batch_end = first + min (min 50 (remaining st)) (n - first + 1) - 1"
  define r where "r = download (mailbox st) rf (backed_up st) [first .. batch_end] [] [] (failures st)"
  define st1 where "st1 = st\<lparr>failures := fst (snd (snd r)),
       trace := trace st @ [Downloading first batch_end, Retr_cmds (snd (snd (snd r)))]\<rparr>"
  have cs: "current_start delete_after start_pos (backed_up st) = first"
    by (simp add: current_start_def first_def)
  have le: "first \<le> n" using assms(2) by (simp add: first_def n_def)
  then have "first \<le> batch_end" using assms(1) by (simp add: batch_end_def)
  from upto_first[OF this] have ne: "[first .. batch_end] \<noteq> []" and hd: "hd [first .. batch_end] = first"
    by simp_all
  have "download (mailbox st) rf (backed_up st) [first .. batch_end] [] [] (failures st)
          = (fst r, fst (snd r), fst (snd (snd r)), snd (snd (snd r)))"
    by (simp add: r_def)
  from download_sent[OF this] ne hd
  have sent: "snd (snd (snd r)) \<noteq> []" "hd (snd (snd (snd r))) = first" by simp_all
  have step: "backup_cycle start_pos delete_after st (Served rf df qf) =
      (if fst (snd (snd r)) \<ge> max_failures then Stop st1
       else Next (write_and_commit delete_after df qf (fst r) (fst (snd r)) st1))"
    using le
    by (simp add: backup_cycle_Served cs Let_def n_def[symmetric] batch_end_def[symmetric]
          r_def[symmetric] st1_def[symmetric])
  have "\<exists>rest. trace (state_of (backup_cycle start_pos delete_after st (Served rf df qf)))
          = trace st @ Downloading first batch_end # Retr_cmds (snd (snd (snd r))) # rest"
    unfolding step by (simp add: state_of_def write_and_commit_fields st1_def)
  with sent show ?thesis unfolding first_def by blast
qed

theorem batch_reads_start_witness:
  "(\<exists>batch_end sent rest.
      trace (state_of (backup_cycle 1 True
        \<lparr>backed_up = 7, deleted = 7, failures = 0, remaining = 2,
         mailbox = [\<lparr>msg_id = 8, msg_date = None\<rparr>, \<lparr>msg_id = 9, msg_date = None\<rparr>],
         archive = [], trace = [Sleeping 2]\<rparr> (Served [] [] False)))
      = [Sleeping 2] @ Downloading 1 batch_end # Retr_cmds sent # rest \<and> sent \<noteq> [] \<and> hd sent = 1) \<and>
   (\<exists>batch_end sent rest.
      trace (state_of (backup_cycle 1 False
        \<lparr>backed_up = 1, deleted = 0, failures = 0, remaining = 1,
         mailbox = [\<lparr>msg_id = 8, msg_date = None\<rparr>, \<lparr>msg_id = 9, msg_date = None\<rparr>],
         archive = [], trace = [Sleeping 2]\<rparr> (Served [] [] False)))
      = [Sleeping 2] @ Downloading 2 batch_end # Retr_cmds sent # rest \<and> sent \<noteq> [] \<and> hd sent = 2)"
proof -
  let ?mb = "[\<lparr>msg_id = 8, msg_date = None\<rparr>, \<lparr>msg_id = 9, msg_date = None\<rparr>]"
  let ?s1 = "\<lparr>backed_up = 7, deleted = 7, failures = 0, remaining = 2,
      mailbox = ?mb, archive = [], trace = [Sleeping 2]\<rparr>"
  let ?s2 = "\<lparr>backed_up = 1, deleted = 0, failures = 0, remaining = 1,
      mailbox = ?mb, archive = [], trace = [Sleeping 2]\<rparr>"
  have a1: "remaining ?s1 > 0" and a2: "remaining ?s2 > 0" by simp_all
  have b1: "(if True then 1 else 1 + backed_up ?s1) \<le> int (length (mailbox ?s1))" by simp
  have b2: "(if False then 1 else 1 + backed_up ?s2) \<le> int (length (mailbox ?s2))" by simp
  have t: "trace ?s1 = [Sleeping 2]" "trace ?s2 = [Sleeping 2]"
    "(if True then 1 else 1 + backed_up ?s1) = 1" "(if False then 1 else 1 + backed_up ?s2) = 2"
    by simp_all
  from batch_reads_start[OF a1 b1, of "[]" "[]" False, unfolded t]
       batch_reads_start[OF a2 b2, of "[]" "[]" False, unfolded t]
  show ?thesis by blast
qed


text \<open>
  C6. With \<^verbatim>\<open>delete_after\<close>, when the commit of a non-empty batch fails: \<open>backed_up\<close>,
  \<open>remaining\<close> and \<open>deleted\<close> have the values they had before the batch, the mailbox is
  unchanged, the entries of the batch stay in the archive, and the next pass downloads
  the same range again, from the same \<open>start_pos\<close>.
\<close>

theorem failed_commit_rolls_back:
  assumes "remaining st > 0"
    and "start_pos \<le> int (length (mailbox st))"
    and "download (mailbox st) rf (backed_up st)
           [start_pos .. start_pos + min (min 50 (remaining st)) (int (length (mailbox st)) - start_pos + 1) - 1]
           [] [] (failures st) = (batch_emails, batch_msg_nums, f, sent)"
    and "f < max_failures"
    and "batch_msg_nums \<noteq> []"
  shows "\<exists>st'. backup_cycle start_pos True st (Served rf df True) = Next st' \<and>
           backed_up st' = backed_up st \<and> remaining st' = remaining st \<and>
           deleted st' = deleted st \<and> mailbox st' = mailbox st \<and> failures st' = f + 1 \<and>
           archive st' = archive st @ write_order batch_emails \<and>
           set (write_order batch_emails) = set batch_emails \<and>
           current_start True start_pos (backed_up st') = start_pos \<and>
           (\<forall>rf' df' qf'. \<exists>rest.
              trace (state_of (backup_cycle start_pos True st' (Served rf' df' qf')))
                = trace st' @
                  Downloading start_pos
                    (start_pos + min (min 50 (remaining st)) (int (length (mailbox st)) - start_pos + 1) - 1)
                  # rest)"
proof -
  define batch_end where
    "batch_end = start_pos + min (min 50 (remaining st)) (int (length (mailbox st)) - start_pos + 1) - 1"
  define st1 where "st1 = st\<lparr>failures := f,
       trace := trace st @ [Downloading start_pos batch_end, Retr_cmds sent]\<rparr>"
  define st' where "st' = write_and_commit True df True batch_emails batch_msg_nums st1"
  have step: "backup_cycle start_pos True st (Served rf df True) = Next st'"
    using assms(2,4) assms(3)[folded batch_end_def]
    by (simp add: backup_cycle_Served current_start_def Let_def batch_end_def[symmetric]
          st1_def[symmetric] st'_def)
  have fields: "backed_up st' = backed_up st" "remaining st' = remaining st"
    "deleted st' = deleted st" "mailbox st' = mailbox st" "failures st' = f + 1"
    "archive st' = archive st @ write_order batch_emails"
    using assms(5) by (simp_all add: st'_def write_and_commit_fields st1_def)
  have again: "\<exists>rest. trace (state_of (backup_cycle start_pos True st' (Served rf' df' qf')))
                = trace st' @ Downloading start_pos batch_end # rest" for rf' df' qf'
    using assms(2) fields(2,4)
    by (auto simp: backup_cycle_Served current_start_def Let_def batch_end_def state_of_def
          write_and_commit_fields)
  from step fields again write_order_set[of batch_emails] show ?thesis
    unfolding batch_end_def current_start_def by auto
qed

theorem failed_commit_rolls_back_witness:
  "backed_up (state_of (backup_cycle 1 True
     \<lparr>backed_up = 7, deleted = 7, failures = 0, remaining = 2,
      mailbox = [\<lparr>msg_id = 8, msg_date = None\<rparr>, \<lparr>msg_id = 9, msg_date = None\<rparr>],
      archive = [], trace = []\<rparr> (Served [] [] True))) = 7 \<and>
   remaining (state_of (backup_cycle 1 True
     \<lparr>backed_up = 7, deleted = 7, failures = 0, remaining = 2,
      mailbox = [\<lparr>msg_id = 8, msg_date = None\<rparr>, \<lparr>msg_id = 9, msg_date = None\<rparr>],
      archive = [], trace = []\<rparr> (Served [] [] True))) = 2 \<and>
   archive (state_of (backup_cycle 1 True
     \<lparr>backed_up = 7, deleted = 7, failures = 0, remaining = 2,
      mailbox = [\<lparr>msg_id = 8, msg_date = None\<rparr>, \<lparr>msg_id = 9, msg_date = None\<rparr>],
      archive = [], trace = []\<rparr> (Served [] [] True)))
   = write_order [((1970, 1), (8, None), \<lparr>msg_id = 8, msg_date = None\<rparr>),
                  ((1970, 1), (9, None), \<lparr>msg_id = 9, msg_date = None\<rparr>)]"
proof -
  let ?mb = "[\<lparr>msg_id = 8, msg_date = None\<rparr>, \<lparr>msg_id = 9, msg_date = None\<rparr>]"
  let ?s = "\<lparr>backed_up = 7, deleted = 7, failures = 0, remaining = 2,
      mailbox = ?mb, archive = [], trace = []\<rparr>"
  let ?be = "[((1970, 1), (8, None), \<lparr>msg_id = 8, msg_date = None\<rparr>),
              ((1970, 1), (9, None), \<lparr>msg_id = 9, msg_date = None\<rparr>)]"
  have a: "remaining ?s > 0" and b: "1 \<le> int (length (mailbox ?s))" by simp_all
  have d: "download (mailbox ?s) [] (backed_up ?s)
           [1 .. 1 + min (min 50 (remaining ?s)) (int (length (mailbox ?s)) - 1 + 1) - 1]
           [] [] (failures ?s) = (?be, [1, 2], 0, [1, 2])"
    by code_simp
  have f: "(0::int) < max_failures" by (simp add: max_failures_def)
  have n: "[1, 2 :: int] \<noteq> []" by simp
  from failed_commit_rolls_back[OF a b d f n, of "[]"]
  obtain st' where st': "backup_cycle 1 True ?s (Served [] [] True) = Next st'"
    "backed_up st' = backed_up ?s" "remaining st' = remaining ?s"
    "archive st' = archive ?s @ write_order ?be"
    by blast
  then show ?thesis by (simp add: state_of_def)
qed


subsection \<open>Batches of at most 50\<close>

lemma delete_cycle_dele_bounded:
  assumes "\<forall>ps. Dele_cmds ps \<in> set (events s) \<longrightarrow> length ps \<le> 50"
    and "delete_cycle config m sp s c = Continue s' \<or> delete_cycle config m sp s c = Break r s'"
  shows "\<forall>ps. Dele_cmds ps \<in> set (events s') \<longrightarrow> length ps \<le> 50"
proof (cases c)
  case Connect_refused
  with assms show ?thesis
    by (auto simp: delete_cycle_def connection_failure_cases split: if_splits)
next
  case Stat_failed
  with assms show ?thesis
    by (auto simp: delete_cycle_def connection_failure_cases split: if_splits)
next
  case (Counted n df qf)
  define bc where "bc = min (min (batch_size config) (m - (first_count s n - n))) (n - sp + 1)"
  have "length (snd (snd (mark_messages df [sp .. sp + bc - 1] 0 0))) \<le> length [sp .. sp + bc - 1]"
    by (rule mark_messages_sent_length)
  also have "\<dots> \<le> 50" using batch_size_le_50[of config] by (simp add: bc_def)
  finally have b: "length (snd (snd (mark_messages df [sp .. sp + bc - 1] 0 0))) \<le> 50" .
  from assms Counted b show ?thesis
    by (auto simp: delete_cycle_Counted Let_def quit_and_break_cases commit_failure_cases
          bc_def[symmetric] split: if_splits)
qed

lemma delete_loop_dele_bounded:
  assumes "delete_loop config m sp initial_dstate cs = Some (Inr (r, st))"
  shows "\<forall>ps. Dele_cmds ps \<in> set (events st) \<longrightarrow> length ps \<le> 50"
  using assms
proof (rule delete_loop_invariant[where P = "\<lambda>s. \<forall>ps. Dele_cmds ps \<in> set (events s) \<longrightarrow> length ps \<le> 50"])
  show "\<forall>ps. Dele_cmds ps \<in> set (events initial_dstate) \<longrightarrow> length ps \<le> 50"
    by (simp add: initial_dstate_def)
next
  fix s c s'
  assume "\<forall>ps. Dele_cmds ps \<in> set (events s) \<longrightarrow> length ps \<le> 50"
    "delete_cycle config m sp s c = Continue s'"
  then show "\<forall>ps. Dele_cmds ps \<in> set (events s') \<longrightarrow> length ps \<le> 50"
    using delete_cycle_dele_bounded by blast
next
  fix s c s'
  assume "\<forall>ps. Dele_cmds ps \<in> set (events s) \<longrightarrow> length ps \<le> 50"
    "delete_cycle config m sp s c = Break r s'"
  then show "\<forall>ps. Dele_cmds ps \<in> set (events s') \<longrightarrow> length ps \<le> 50"
    using delete_cycle_dele_bounded by blast
qed

lemma backup_cycle_small_batches:
  assumes "small_batches (trace s)"
  shows "small_batches (trace (state_of (backup_cycle sp da s a)))"
proof (cases a)
  case No_connection
  with assms show ?thesis
    by (auto simp: backup_cycle_def state_of_def small_batches_def Let_def)
next
  case No_stat
  with assms show ?thesis
    by (auto simp: backup_cycle_def state_of_def small_batches_def Let_def)
next
  case (Served rf df qf)
  define first where "first = current_start da sp (backed_up s)"
  define batch_end where
    "batch_end = first + min (min 50 (remaining s)) (int (length (mailbox s)) - first + 1) - 1"
  define r where "r = download (mailbox s) rf (backed_up s) [first .. batch_end] [] [] (failures s)"
  have d: "download (mailbox s) rf (backed_up s) [first .. batch_end] [] [] (failures s)
          = (fst r, fst (snd r), fst (snd (snd r)), snd (snd (snd r)))"
    by (simp add: r_def)
  have len: "length [first .. batch_end] \<le> 50" by (simp add: batch_end_def)
  from download_sent[OF d] len have sent: "length (snd (snd (snd r))) \<le> 50" by simp
  from download_acc[OF d] obtain nn where nn: "fst (snd r) = nn" "set nn \<subseteq> set [first .. batch_end]"
    "distinct nn" by auto
  have "length nn = card (set nn)" using nn(3) by (simp add: distinct_card)
  also have "\<dots> \<le> card (set [first .. batch_end])" using nn(2) by (intro card_mono) auto
  also have "\<dots> \<le> length [first .. batch_end]" by (rule card_length)
  finally have bn: "length (fst (snd r)) \<le> 50" using len nn(1) by simp
  show ?thesis
    using assms sent bn unfolding Served
    by (auto simp: backup_cycle_Served Let_def first_def[symmetric] batch_end_def[symmetric]
          r_def[symmetric] state_of_def small_batches_def write_and_commit_fields
          split: if_splits)
qed


text \<open>
  C10. Whatever \<^verbatim>\<open>BATCH_SIZE\<close> is configured, the batch size of the delete engine is at
  most 50 and no session of a run sends more than 50 \<^verbatim>\<open>DELE\<close> commands; the backup
  pipeline does not read the configured value, and no session of a run sends more than
  50 \<^verbatim>\<open>RETR\<close> or more than 50 \<^verbatim>\<open>DELE\<close> commands.
\<close>

theorem batches_at_most_50:
  "batch_size config \<le> 50 \<and>
   (delete_messages_robust config m sp cs final = Some (Inr (returned, reason, st)) \<longrightarrow>
      (\<forall>ps. Dele_cmds ps \<in> set (events st) \<longrightarrow> length ps \<le> 50)) \<and>
   (backup_emails_to_zip config start_pos end_pos delete_after mbox as = Some (b, d, bst) \<longrightarrow>
      (\<forall>ps. (Retr_cmds ps \<in> set (trace bst) \<or> Dele_sent ps \<in> set (trace bst)) \<longrightarrow> length ps \<le> 50)) \<and>
   backup_emails_to_zip config start_pos end_pos delete_after mbox as
     = backup_emails_to_zip \<lparr>BATCH_SIZE = other\<rparr> start_pos end_pos delete_after mbox as"
proof -
  have del: "\<forall>ps. Dele_cmds ps \<in> set (events st) \<longrightarrow> length ps \<le> 50"
    if "delete_messages_robust config m sp cs final = Some (Inr (returned, reason, st))"
    using delete_loop_dele_bounded[OF run_cases(1)[OF that]] .
  have bak: "small_batches (trace bst)"
    if run: "backup_emails_to_zip config start_pos end_pos delete_after mbox as = Some (b, d, bst)"
  proof -
    from run have "backup_loop start_pos delete_after
             \<lparr>backed_up = 0, deleted = 0, failures = 0, remaining = end_pos - start_pos + 1,
              mailbox = mbox, archive = [], trace = []\<rparr> as = Some bst"
      by (auto simp: backup_emails_to_zip_def Let_def split: option.splits)
    then show ?thesis
      by (rule backup_loop_invariant[where P = "\<lambda>s. small_batches (trace s)"])
         (simp_all add: small_batches_def[of "[]"] backup_cycle_small_batches)
  qed
  have "backup_emails_to_zip config start_pos end_pos delete_after mbox as
     = backup_emails_to_zip \<lparr>BATCH_SIZE = other\<rparr> start_pos end_pos delete_after mbox as"
    by (simp add: backup_emails_to_zip_def)
  with del bak batch_size_le_50[of config] show ?thesis
    unfolding small_batches_def by blast
qed

theorem batches_at_most_50_witness:
  "batch_size \<lparr>BATCH_SIZE = Some 500\<rparr> = 50 \<and>
   delete_messages_robust \<lparr>BATCH_SIZE = Some 500\<rparr> 60 1 [Counted 60 [] False, Counted 10 [] False, Counted 0 [] False] None
   = Some (Inr (60, Mailbox_empty,
       \<lparr>initial_count = Some 60, num_messages = Some 0, consecutive_failures = 0,
        events = [Dele_cmds [1 .. 50], Quit_cmd True, Pausing 3,
                  Dele_cmds [1 .. 10], Quit_cmd True, Pausing 3]\<rparr>)) \<and>
   \<not> (\<exists>ps. Dele_cmds ps \<in> set [Dele_cmds [1 .. 50], Quit_cmd True, Pausing 3,
                  Dele_cmds [1 .. 10], Quit_cmd True, Pausing 3] \<and> length ps > 50) \<and>
   backup_emails_to_zip \<lparr>BATCH_SIZE = Some 500\<rparr> 1 1 True [\<lparr>msg_id = 8, msg_date = None\<rparr>] [Served [] [] False]
   = Some (1, 1,
       \<lparr>backed_up = 1, deleted = 1, failures = 0, remaining = 0, mailbox = [],
        archive = [((1970, 1), (1, None), \<lparr>msg_id = 8, msg_date = None\<rparr>)],
        trace = [Downloading 1 1, Retr_cmds [1],
                 Zip_write ((1970, 1), (1, None), \<lparr>msg_id = 8, msg_date = None\<rparr>),
                 Dele_sent [1], Commit True [\<lparr>msg_id = 8, msg_date = None\<rparr>]]\<rparr>)"
proof -
  let ?st = "\<lparr>initial_count = Some 60, num_messages = Some 0, consecutive_failures = 0,
        events = [Dele_cmds [1 .. 50], Quit_cmd True, Pausing 3,
                  Dele_cmds [1 .. 10], Quit_cmd True, Pausing 3]\<rparr>"
  let ?bst = "\<lparr>backed_up = 1, deleted = 1, failures = 0, remaining = 0, mailbox = [],
        archive = [((1970, 1), (1, None), \<lparr>msg_id = 8, msg_date = None\<rparr>)],
        trace = [Downloading 1 1, Retr_cmds [1],
                 Zip_write ((1970, 1), (1, None), \<lparr>msg_id = 8, msg_date = None\<rparr>),
                 Dele_sent [1], Commit True [\<lparr>msg_id = 8, msg_date = None\<rparr>]]\<rparr>"
  have r1: "delete_messages_robust \<lparr>BATCH_SIZE = Some 500\<rparr> 60 1
      [Counted 60 [] False, Counted 10 [] False, Counted 0 [] False] None
      = Some (Inr (60, Mailbox_empty, ?st))"
    by code_simp
  have r2: "backup_emails_to_zip \<lparr>BATCH_SIZE = Some 500\<rparr> 1 1 True [\<lparr>msg_id = 8, msg_date = None\<rparr>]
      [Served [] [] False] = Some (1, 1, ?bst)"
    by code_simp
  have b: "batch_size \<lparr>BATCH_SIZE = Some 500\<rparr> = 50" by (simp add: batch_size_def)
  from batches_at_most_50[of "\<lparr>BATCH_SIZE = Some 500\<rparr>" 60 1
      "[Counted 60 [] False, Counted 10 [] False, Counted 0 [] False]" None 60 Mailbox_empty ?st
      1 1 True "[\<lparr>msg_id = 8, msg_date = None\<rparr>]" "[Served [] [] False]" 1 1 ?bst] r1
  have h: "\<forall>ps. Dele_cmds ps \<in> set (events ?st) \<longrightarrow> length ps \<le> 50" by blast
  have ev: "events ?st = [Dele_cmds [1 .. 50], Quit_cmd True, Pausing 3,
                  Dele_cmds [1 .. 10], Quit_cmd True, Pausing 3]" by simp
  from h[unfolded ev]
  have "\<not> (\<exists>ps. Dele_cmds ps \<in> set [Dele_cmds [1 .. 50], Quit_cmd True, Pausing 3,
                  Dele_cmds [1 .. 10], Quit_cmd True, Pausing 3] \<and> length ps > 50)"
    by (meson not_less)
  with b r1 r2 show ?thesis by blast
qed

subsection \<open>Archived before deleted\<close>

lemma archived_first_cong:
  "set seen = set seen' \<Longrightarrow> archived_first seen es = archived_first seen' es"
proof (induction es arbitrary: seen seen')
  case Nil
  then show ?case by simp
next
  case (Cons e es)
  show ?case
  proof (cases e)
    case (Zip_write z)
    have "set (content z # seen) = set (content z # seen')" using Cons.prems by simp
    from Cons.IH[OF this] Zip_write show ?thesis by simp
  next
    case (Commit ok ms)
    with Cons.IH[OF Cons.prems] Cons.prems show ?thesis by simp
  qed (use Cons.IH[OF Cons.prems] in simp_all)
qed

lemma zip_writes_append: "zip_writes (xs @ ys) = zip_writes xs @ zip_writes ys"
  by (induction xs rule: zip_writes.induct) simp_all

lemma zip_writes_map: "zip_writes (map Zip_write es) = es"
  by (induction es) simp_all

lemma zip_writes_set: "Zip_write e \<in> set tr \<longleftrightarrow> e \<in> set (zip_writes tr)"
  by (induction tr rule: zip_writes.induct) auto

lemma archived_first_append:
  "archived_first seen (xs @ ys) \<longleftrightarrow>
     archived_first seen xs \<and> archived_first (map content (zip_writes xs) @ seen) ys"
proof (induction xs arbitrary: seen)
  case Nil
  then show ?case by simp
next
  case (Cons e xs)
  show ?case
  proof (cases e)
    case (Zip_write z)
    have "archived_first (map content (zip_writes xs) @ content z # seen) ys
          = archived_first (content z # map content (zip_writes xs) @ seen) ys"
      by (rule archived_first_cong) auto
    with Cons.IH[of "content z # seen"] Zip_write show ?thesis by simp
  next
    case (Commit ok ms)
    with Cons.IH[of seen] show ?thesis by auto
  qed (use Cons.IH[of seen] in simp_all)
qed

lemma archived_first_writes: "archived_first seen (map Zip_write es)"
  by (induction es arbitrary: seen) simp_all

lemma archived_first_split:
  assumes "archived_first seen tr" and "tr = pre @ Commit ok ms # post" and "m \<in> set ms"
  shows "m \<in> set seen \<or> (\<exists>e. Zip_write e \<in> set pre \<and> content e = m)"
  using assms
proof (induction pre arbitrary: seen tr)
  case Nil
  then show ?case by auto
next
  case (Cons x pre)
  from Cons.prems(2) have tr: "tr = x # (pre @ Commit ok ms # post)" by simp
  show ?case
  proof (cases x)
    case (Zip_write z)
    with Cons.prems(1) tr have "archived_first (content z # seen) (pre @ Commit ok ms # post)" by simp
    from Cons.IH[OF this refl Cons.prems(3)]
    have "m = content z \<or> m \<in> set seen \<or> (\<exists>e. Zip_write e \<in> set pre \<and> content e = m)"
      by auto
    then show ?thesis unfolding Zip_write list.set by blast
  next
    case (Commit ok' ms')
    with Cons.prems(1) tr have "archived_first seen (pre @ Commit ok ms # post)" by simp
    from Cons.IH[OF this refl Cons.prems(3)] show ?thesis unfolding list.set by blast
  next
    case (Sleeping n)
    with Cons.prems(1) tr have "archived_first seen (pre @ Commit ok ms # post)" by simp
    from Cons.IH[OF this refl Cons.prems(3)] show ?thesis unfolding list.set by blast
  next
    case (Downloading a b)
    with Cons.prems(1) tr have "archived_first seen (pre @ Commit ok ms # post)" by simp
    from Cons.IH[OF this refl Cons.prems(3)] show ?thesis unfolding list.set by blast
  next
    case (Retr_cmds ps)
    with Cons.prems(1) tr have "archived_first seen (pre @ Commit ok ms # post)" by simp
    from Cons.IH[OF this refl Cons.prems(3)] show ?thesis unfolding list.set by blast
  next
    case (Dele_sent ps)
    with Cons.prems(1) tr have "archived_first seen (pre @ Commit ok ms # post)" by simp
    from Cons.IH[OF this refl Cons.prems(3)] show ?thesis unfolding list.set by blast
  qed
qed

lemma messages_at_subset:
  "set marked \<subseteq> set bn \<Longrightarrow> set (messages_at mbox marked) \<subseteq> set (messages_at mbox bn)"
  by (auto simp: messages_at_def)

lemma backup_cycle_archive_ok:
  assumes "archive_ok s"
  shows "archive_ok (state_of (backup_cycle sp da s a))"
proof (cases a)
  case No_connection
  with assms show ?thesis
    by (auto simp: backup_cycle_def state_of_def archive_ok_def Let_def archived_first_append
          zip_writes_append)
next
  case No_stat
  with assms show ?thesis
    by (auto simp: backup_cycle_def state_of_def archive_ok_def Let_def)
next
  case (Served rf df qf)
  define first where "first = current_start da sp (backed_up s)"
  define batch_end where
    "batch_end = first + min (min 50 (remaining s)) (int (length (mailbox s)) - first + 1) - 1"
  define r where "r = download (mailbox s) rf (backed_up s) [first .. batch_end] [] [] (failures s)"
  define be where "be = fst r"
  define bn where "bn = fst (snd r)"
  define marked where "marked = filter (\<lambda>i. i \<notin> set df) bn"
  have d: "download (mailbox s) rf (backed_up s) [first .. batch_end] [] [] (failures s)
          = (be, bn, fst (snd (snd r)), snd (snd (snd r)))"
    by (simp add: r_def be_def bn_def)
  from download_acc[OF d] have c: "map content be = messages_at (mailbox s) bn" by auto
  have "set (messages_at (mailbox s) marked) \<subseteq> set (messages_at (mailbox s) bn)"
    by (rule messages_at_subset) (auto simp: marked_def)
  also have "\<dots> = content ` set (write_order be)"
    using c write_order_set[of be] by (metis list.set_map)
  finally have sub': "set (messages_at (mailbox s) marked) \<subseteq> content ` set (write_order be)" .
  then have sub: "set (messages_at (mailbox s) marked)
      \<subseteq> set (map content (write_order be) @ map content (zip_writes (trace s)))"
    by auto
  have tail: "archived_first (map content (write_order be) @ map content (zip_writes (trace s))) tl"
    if "tl = (if da \<and> bn \<noteq> [] then
        Dele_sent bn #
        (if qf then [Commit False (messages_at (mailbox s) marked), Sleeping k]
         else Commit True (messages_at (mailbox s) marked) # (if c2 then [Sleeping 2] else []))
      else (if c2 then [Sleeping 2] else []))" for tl k c2
    using sub that by auto
  show ?thesis
    using assms tail sub' unfolding Served
    by (auto simp: archived_first_writes backup_cycle_Served Let_def first_def[symmetric] batch_end_def[symmetric]
          r_def[symmetric] be_def[symmetric] bn_def[symmetric] marked_def[symmetric]
          state_of_def archive_ok_def write_and_commit_fields archived_first_append
          zip_writes_append zip_writes_map)
qed

lemma backup_run_loop:
  assumes "backup_emails_to_zip config start_pos end_pos da mbox as = Some (b, d, st)"
  shows "backup_loop start_pos da
             \<lparr>backed_up = 0, deleted = 0, failures = 0, remaining = end_pos - start_pos + 1,
              mailbox = mbox, archive = [], trace = []\<rparr> as = Some st"
  using assms by (auto simp: backup_emails_to_zip_def Let_def split: option.splits)

lemma backup_run_archive_ok:
  assumes "backup_emails_to_zip config start_pos end_pos da mbox as = Some (b, d, st)"
  shows "archive_ok st"
  using backup_run_loop[OF assms]
  by (rule backup_loop_invariant[where P = archive_ok])
     (simp_all add: archive_ok_def[of "\<lparr>backed_up = 0, deleted = 0, failures = 0,
          remaining = end_pos - start_pos + 1, mailbox = mbox, archive = [], trace = []\<rparr>"]
        backup_cycle_archive_ok)

lemma remove_marked_subset: "set (remove_marked marked i xs) \<subseteq> set xs"
  by (induction marked i xs rule: remove_marked.induct) auto

lemma remove_marked_distinct: "distinct xs \<Longrightarrow> distinct (remove_marked marked i xs)"
  using remove_marked_subset by (induction marked i xs rule: remove_marked.induct) fastforce+

lemma remove_marked_gone:
  assumes "distinct xs" and "k < length xs" and "i + int k \<in> set marked"
  shows "xs ! k \<notin> set (remove_marked marked i xs)"
  using assms
proof (induction marked i xs arbitrary: k rule: remove_marked.induct)
  case (1 marked i)
  then show ?case by simp
next
  case (2 marked i x xs)
  show ?case
  proof (cases k)
    case 0
    with "2.prems" have "i \<in> set marked" by simp
    moreover have "x \<notin> set (remove_marked marked (i + 1) xs)"
      using "2.prems"(1) remove_marked_subset[of marked "i + 1" xs] by auto
    ultimately show ?thesis using 0 by simp
  next
    case (Suc k')
    with "2.prems" have k': "k' < length xs" "i + 1 + int k' \<in> set marked" "distinct xs"
      by (simp_all add: algebra_simps)
    have ne: "xs ! k' \<noteq> x" using "2.prems"(1) k'(1) by auto
    show ?thesis
    proof (cases "i \<in> set marked")
      case True
      with "2.IH"(1)[OF True k'(3) k'(1) k'(2)] Suc show ?thesis by simp
    next
      case False
      with "2.IH"(2)[OF False k'(3) k'(1) k'(2)] Suc ne show ?thesis by simp
    qed
  qed
qed

lemma messages_at_distinct:
  assumes "distinct mbox" and "distinct ps" and "\<forall>p \<in> set ps. 1 \<le> p \<and> p \<le> int (length mbox)"
  shows "distinct (messages_at mbox ps)"
proof -
  have "inj_on (\<lambda>i. mbox ! nat (i - 1)) (set ps)"
  proof (rule inj_onI)
    fix p q assume pq: "p \<in> set ps" "q \<in> set ps" "mbox ! nat (p - 1) = mbox ! nat (q - 1)"
    with assms(3) have "nat (p - 1) < length mbox" "nat (q - 1) < length mbox" "1 \<le> p" "1 \<le> q"
      by force+
    with pq(3) assms(1) show "p = q" by (simp add: nth_eq_iff_index_eq)
  qed
  with assms(2) show ?thesis by (simp add: messages_at_def distinct_map)
qed

lemma messages_at_in_mailbox:
  assumes "\<forall>p \<in> set ps. 1 \<le> p \<and> p \<le> int (length mbox)"
  shows "set (messages_at mbox ps) \<subseteq> set mbox"
  using assms by (force simp: messages_at_def)

lemma messages_at_gone:
  assumes "distinct mbox" and "\<forall>p \<in> set ps. 1 \<le> p \<and> p \<le> int (length mbox)"
  shows "set (messages_at mbox ps) \<inter> set (remove_marked ps 1 mbox) = {}"
proof -
  have "mbox ! nat (p - 1) \<notin> set (remove_marked ps 1 mbox)" if "p \<in> set ps" for p
  proof -
    from that assms(2) have "nat (p - 1) < length mbox" "1 + int (nat (p - 1)) \<in> set ps" by force+
    with remove_marked_gone[OF assms(1)] show ?thesis by blast
  qed
  then show ?thesis by (auto simp: messages_at_def)
qed

lemma write_order_Nil: "write_order [] = []"
  by (simp add: write_order_def batch_by_zip_def)

lemma write_order_contents: "mset (map content (write_order be)) = mset (map content be)"
  using write_order_mset[of be] by (metis mset_map)

lemma backup_cycle_once_ok:
  assumes "once_ok s" and "failure_free a"
  shows "once_ok (state_of (backup_cycle sp True s a))"
proof (cases a)
  case No_connection
  with assms show ?thesis
    by (auto simp: backup_cycle_def state_of_def once_ok_def Let_def)
next
  case No_stat
  with assms show ?thesis
    by (auto simp: backup_cycle_def state_of_def once_ok_def Let_def)
next
  case (Served rf df qf)
  with assms(2) have ff: "df = []" "\<not> qf" by (simp_all add: failure_free_def)
  define first where "first = current_start True sp (backed_up s)"
  define batch_end where
    "batch_end = first + min (min 50 (remaining s)) (int (length (mailbox s)) - first + 1) - 1"
  define r where "r = download (mailbox s) rf (backed_up s) [first .. batch_end] [] [] (failures s)"
  define be where "be = fst r"
  define bn where "bn = fst (snd r)"
  have d: "download (mailbox s) rf (backed_up s) [first .. batch_end] [] [] (failures s)
          = (be, bn, fst (snd (snd r)), snd (snd (snd r)))"
    by (simp add: r_def be_def bn_def)
  from download_acc[OF d] have acc: "map content be = messages_at (mailbox s) bn"
    "length be = length bn" "distinct bn" "\<forall>i \<in> set bn. 1 \<le> i \<and> i \<le> int (length (mailbox s))"
    by auto
  from assms(1) have inv: "distinct (mailbox s)" "distinct (map content (archive s))"
    "content ` set (archive s) \<inter> set (mailbox s) = {}"
    by (simp_all add: once_ok_def)
  have W: "mset (map content (write_order be)) = mset (messages_at (mailbox s) bn)"
    using write_order_contents[of be] acc(1) by simp
  have Wset: "content ` set (write_order be) = set (messages_at (mailbox s) bn)"
    using W by (metis list.set_map set_mset_mset)
  have Wdist: "distinct (map content (write_order be))"
    using W messages_at_distinct[OF inv(1) acc(3,4)] by (metis mset_eq_imp_distinct_iff)
  have in_mbox: "set (messages_at (mailbox s) bn) \<subseteq> set (mailbox s)"
    by (rule messages_at_in_mailbox[OF acc(4)])
  have new: "once_ok (s'\<lparr>archive := archive s @ write_order be,
                          mailbox := remove_marked bn 1 (mailbox s)\<rparr>)" for s' :: bstate
    unfolding once_ok_def
  proof (intro conjI)
    show "distinct (mailbox (s'\<lparr>archive := archive s @ write_order be,
                          mailbox := remove_marked bn 1 (mailbox s)\<rparr>))"
      using inv(1) by (simp add: remove_marked_distinct)
    show "distinct (map content (archive (s'\<lparr>archive := archive s @ write_order be,
                          mailbox := remove_marked bn 1 (mailbox s)\<rparr>)))"
      using inv(2,3) Wdist Wset in_mbox by auto
    show "content ` set (archive (s'\<lparr>archive := archive s @ write_order be,
                          mailbox := remove_marked bn 1 (mailbox s)\<rparr>)) \<inter>
          set (mailbox (s'\<lparr>archive := archive s @ write_order be,
                          mailbox := remove_marked bn 1 (mailbox s)\<rparr>)) = {}"
      using inv(3) Wset messages_at_gone[OF inv(1) acc(4)]
        remove_marked_subset[of bn 1 "mailbox s"]
      by (auto simp: image_Un)
  qed
  have same: "once_ok s'" if "archive s' = archive s" "mailbox s' = mailbox s" for s'
    using assms(1) that by (simp add: once_ok_def)
  define st1 where "st1 = s\<lparr>failures := fst (snd (snd r)),
       trace := trace s @ [Downloading first batch_end, Retr_cmds (snd (snd (snd r)))]\<rparr>"
  have step: "backup_cycle sp True s (Served rf df qf) =
      (if first > int (length (mailbox s)) then Stop s
       else if fst (snd (snd r)) \<ge> max_failures then Stop st1
       else Next (write_and_commit True [] False be bn st1))"
    by (simp add: backup_cycle_Served Let_def first_def[symmetric] batch_end_def[symmetric]
          r_def[symmetric] st1_def[symmetric] be_def bn_def ff)
  have wac: "once_ok (write_and_commit True [] False be bn st1)"
  proof (cases "bn = []")
    case True
    with acc(2) have "be = []" by simp
    with True show ?thesis
      by (intro same) (simp_all add: write_and_commit_fields write_order_Nil st1_def)
  next
    case False
    have "once_ok (write_and_commit True [] False be bn st1)
          = once_ok (st1\<lparr>archive := archive s @ write_order be,
                          mailbox := remove_marked bn 1 (mailbox s)\<rparr>)"
      using False by (simp add: once_ok_def write_and_commit_fields st1_def)
    with new show ?thesis by simp
  qed
  show ?thesis
    unfolding Served step using assms(1) wac same[of st1]
    by (simp add: state_of_def st1_def)
qed

lemma backup_run_once_ok:
  assumes "backup_emails_to_zip config start_pos end_pos True mbox as = Some (b, d, st)"
    and "distinct mbox" and "\<forall>a \<in> set as. failure_free a"
  shows "once_ok st"
  using backup_run_loop[OF assms(1)]
proof (rule backup_loop_invariant[where P = once_ok])
  show "once_ok \<lparr>backed_up = 0, deleted = 0, failures = 0, remaining = end_pos - start_pos + 1,
              mailbox = mbox, archive = [], trace = []\<rparr>"
    using assms(2) by (simp add: once_ok_def)
next
  fix s a assume "once_ok s" "a \<in> set as"
  with assms(3) show "once_ok (state_of (backup_cycle start_pos True s a))"
    by (intro backup_cycle_once_ok) auto
qed

lemma distinct_map_filter_one:
  assumes "distinct (map f xs)" and "x \<in> set xs"
  shows "length (filter (\<lambda>e. f e = f x) xs) = 1"
  using assms
proof (induction xs)
  case Nil
  then show ?case by simp
next
  case (Cons y ys)
  show ?case
  proof (cases "f y = f x")
    case True
    with Cons.prems have "f x \<notin> f ` set ys" by auto
    then have "\<forall>e \<in> set ys. f e \<noteq> f x" by (metis imageI)
    then have "filter (\<lambda>e. f e = f x) ys = []" by (simp add: filter_empty_conv)
    with True show ?thesis by simp
  next
    case False
    with Cons.prems have "x \<in> set ys" "distinct (map f ys)" by auto
    with Cons.IH False show ?thesis by simp
  qed
qed

lemma remove_marked_kept_or_marked:
  assumes "x \<in> set xs"
  shows "x \<in> set (remove_marked marked i xs) \<or> (\<exists>k < length xs. xs ! k = x \<and> i + int k \<in> set marked)"
  using assms
proof (induction marked i xs rule: remove_marked.induct)
  case (1 marked i)
  then show ?case by simp
next
  case (2 marked i y ys)
  show ?case
  proof (cases "x = y")
    case True
    show ?thesis
    proof (cases "i \<in> set marked")
      case im: True
      have "0 < length (y # ys) \<and> (y # ys) ! 0 = x \<and> i + int 0 \<in> set marked"
        using True im by simp
      then show ?thesis by blast
    next
      case False
      with True show ?thesis by simp
    qed
  next
    case False
    with "2.prems" have xin: "x \<in> set ys" by simp
    have IH: "x \<in> set (remove_marked marked (i + 1) ys) \<or>
              (\<exists>k < length ys. ys ! k = x \<and> i + 1 + int k \<in> set marked)"
      using "2.IH"(1)[OF _ xin] "2.IH"(2)[OF _ xin] by (cases "i \<in> set marked") auto
    then show ?thesis
    proof
      assume "x \<in> set (remove_marked marked (i + 1) ys)"
      then show ?thesis by simp
    next
      assume "\<exists>k < length ys. ys ! k = x \<and> i + 1 + int k \<in> set marked"
      then obtain k where k: "k < length ys" "ys ! k = x" "i + 1 + int k \<in> set marked" by blast
      then have "Suc k < length (y # ys) \<and> (y # ys) ! Suc k = x \<and> i + int (Suc k) \<in> set marked"
        by (simp add: algebra_simps)
      then show ?thesis by blast
    qed
  qed
qed

lemma removed_are_marked:
  assumes "x \<in> set mbox"
  shows "x \<in> set (remove_marked marked 1 mbox) \<or> x \<in> set (messages_at mbox marked)"
proof -
  from remove_marked_kept_or_marked[OF assms, of marked 1]
  show ?thesis
  proof
    assume "\<exists>k < length mbox. mbox ! k = x \<and> 1 + int k \<in> set marked"
    then obtain k where k: "mbox ! k = x" "1 + int k \<in> set marked" by blast
    have "mbox ! nat (1 + int k - 1) = x" using k(1) by simp
    with k(2) have "x \<in> (\<lambda>i. mbox ! nat (i - 1)) ` set marked" by (metis imageI)
    then show ?thesis by (simp add: messages_at_def)
  qed simp
qed

lemma backup_cycle_kept_or_archived:
  assumes "kept_or_archived mbox s"
  shows "kept_or_archived mbox (state_of (backup_cycle sp da s a))"
proof (cases a)
  case No_connection
  with assms show ?thesis
    by (auto simp: backup_cycle_def state_of_def kept_or_archived_def Let_def)
next
  case No_stat
  with assms show ?thesis
    by (auto simp: backup_cycle_def state_of_def kept_or_archived_def Let_def)
next
  case (Served rf df qf)
  define first where "first = current_start da sp (backed_up s)"
  define batch_end where
    "batch_end = first + min (min 50 (remaining s)) (int (length (mailbox s)) - first + 1) - 1"
  define r where "r = download (mailbox s) rf (backed_up s) [first .. batch_end] [] [] (failures s)"
  define be where "be = fst r"
  define bn where "bn = fst (snd r)"
  define marked where "marked = filter (\<lambda>i. i \<notin> set df) bn"
  define st1 where "st1 = s\<lparr>failures := fst (snd (snd r)),
       trace := trace s @ [Downloading first batch_end, Retr_cmds (snd (snd (snd r)))]\<rparr>"
  have d: "download (mailbox s) rf (backed_up s) [first .. batch_end] [] [] (failures s)
          = (be, bn, fst (snd (snd r)), snd (snd (snd r)))"
    by (simp add: r_def be_def bn_def)
  from download_acc[OF d] have c: "map content be = messages_at (mailbox s) bn" by auto
  have "set (messages_at (mailbox s) marked) \<subseteq> set (messages_at (mailbox s) bn)"
    by (rule messages_at_subset) (auto simp: marked_def)
  also have "\<dots> = content ` set (write_order be)"
    using c write_order_set[of be] by (metis list.set_map)
  finally have sub: "set (messages_at (mailbox s) marked) \<subseteq> content ` set (write_order be)" .
  have step: "backup_cycle sp da s (Served rf df qf) =
      (if first > int (length (mailbox s)) then Stop s
       else if fst (snd (snd r)) \<ge> max_failures then Stop st1
       else Next (write_and_commit da df qf be bn st1))"
    by (simp add: backup_cycle_Served Let_def first_def[symmetric] batch_end_def[symmetric]
          r_def[symmetric] st1_def[symmetric] be_def bn_def)
  have same: "kept_or_archived mbox s'" if "archive s' = archive s" "mailbox s' = mailbox s" for s'
    using assms that by (simp add: kept_or_archived_def)
  have wac: "kept_or_archived mbox (write_and_commit da df qf be bn st1)"
    unfolding kept_or_archived_def
  proof
    fix x assume "x \<in> set mbox"
    with assms have x: "x \<in> set (mailbox s) \<or> x \<in> content ` set (archive s)"
      by (auto simp: kept_or_archived_def)
    have "x \<in> set (remove_marked marked 1 (mailbox s)) \<or> x \<in> content ` set (write_order be)"
      if "x \<in> set (mailbox s)"
      using removed_are_marked[OF that, of marked] sub by blast
    with x show "x \<in> set (mailbox (write_and_commit da df qf be bn st1)) \<union>
                  content ` set (archive (write_and_commit da df qf be bn st1))"
      by (auto simp: write_and_commit_fields st1_def marked_def image_Un)
  qed
  show ?thesis
    unfolding Served step using assms wac same[of st1]
    by (simp add: state_of_def st1_def)
qed

lemma backup_run_kept_or_archived:
  assumes "backup_emails_to_zip config start_pos end_pos da mbox as = Some (b, d, st)"
  shows "kept_or_archived mbox st"
  using backup_run_loop[OF assms]
  by (rule backup_loop_invariant[where P = "kept_or_archived mbox"])
     (simp_all add: kept_or_archived_def[of mbox "\<lparr>backed_up = 0, deleted = 0, failures = 0,
          remaining = end_pos - start_pos + 1, mailbox = mbox, archive = [], trace = []\<rparr>"]
        backup_cycle_kept_or_archived)

text \<open>
  C2, as the code has it. In a run with \<^verbatim>\<open>delete_after\<close>, every message of a commit has an
  archive entry that was written before the commit was attempted, and the entry is in
  the final archive; it has exactly one entry when the messages of the mailbox are
  distinct and no \<^verbatim>\<open>DELE\<close> and no commit of the run fails. And every message of the
  mailbox is still in the mailbox at the end or has an entry in the archive.
\<close>

theorem backed_up_before_deleted:
  assumes "backup_emails_to_zip config start_pos end_pos True mbox answers = Some (b, d, st)"
  shows "(\<forall>pre ok ms post m. trace st = pre @ Commit ok ms # post \<and> m \<in> set ms \<longrightarrow>
            (\<exists>e. Zip_write e \<in> set pre \<and> content e = m \<and> e \<in> set (archive st)) \<and>
            (distinct mbox \<and> (\<forall>a \<in> set answers. failure_free a) \<longrightarrow>
               length (filter (\<lambda>e. content e = m) (archive st)) = 1)) \<and>
         (\<forall>x \<in> set mbox. x \<in> set (mailbox st) \<or> (\<exists>e \<in> set (archive st). content e = x))"
proof -
  from backup_run_archive_ok[OF assms]
  have ok: "archived_first [] (trace st)" "zip_writes (trace st) = archive st"
    by (simp_all add: archive_ok_def)
  have commits: "(\<exists>e. Zip_write e \<in> set pre \<and> content e = m \<and> e \<in> set (archive st)) \<and>
            (distinct mbox \<and> (\<forall>a \<in> set answers. failure_free a) \<longrightarrow>
               length (filter (\<lambda>e. content e = m) (archive st)) = 1)"
    if split: "trace st = pre @ Commit ok ms # post" and m: "m \<in> set ms" for pre ok ms post m
  proof -
    from archived_first_split[OF ok(1) split m]
    obtain e where e: "Zip_write e \<in> set pre" "content e = m" by auto
    from e(1) split have "Zip_write e \<in> set (trace st)" by simp
    then have mem: "e \<in> set (archive st)" using ok(2) by (simp add: zip_writes_set)
    have "length (filter (\<lambda>e. content e = m) (archive st)) = 1"
      if "distinct mbox" "\<forall>a \<in> set answers. failure_free a"
    proof -
      from backup_run_once_ok[OF assms that]
      have "distinct (map content (archive st))" by (simp add: once_ok_def)
      from distinct_map_filter_one[OF this mem] e(2) show ?thesis by simp
    qed
    with e mem show ?thesis by blast
  qed
  have "\<forall>x \<in> set mbox. x \<in> set (mailbox st) \<or> (\<exists>e \<in> set (archive st). content e = x)"
    using backup_run_kept_or_archived[OF assms] by (auto simp: kept_or_archived_def)
  with commits show ?thesis by blast
qed


theorem backed_up_before_deleted_witness:
  "backup_emails_to_zip \<lparr>BATCH_SIZE = None\<rparr> 1 2 True
     [\<lparr>msg_id = 1, msg_date = Some (2020, 1, 5)\<rparr>, \<lparr>msg_id = 2, msg_date = None\<rparr>]
     [Served [] [] False]
   = Some (2, 2,
       \<lparr>backed_up = 2, deleted = 2, failures = 0, remaining = 0, mailbox = [],
        archive = [((2020, 1), (1, Some (2020, 1, 5)), \<lparr>msg_id = 1, msg_date = Some (2020, 1, 5)\<rparr>),
                   ((1970, 1), (2, None), \<lparr>msg_id = 2, msg_date = None\<rparr>)],
        trace = [Downloading 1 2, Retr_cmds [1, 2],
                 Zip_write ((2020, 1), (1, Some (2020, 1, 5)), \<lparr>msg_id = 1, msg_date = Some (2020, 1, 5)\<rparr>),
                 Zip_write ((1970, 1), (2, None), \<lparr>msg_id = 2, msg_date = None\<rparr>),
                 Dele_sent [1, 2],
                 Commit True [\<lparr>msg_id = 1, msg_date = Some (2020, 1, 5)\<rparr>, \<lparr>msg_id = 2, msg_date = None\<rparr>]]\<rparr>) \<and>
   length (filter (\<lambda>e. content e = \<lparr>msg_id = 2, msg_date = None\<rparr>)
     [((2020, 1), (1, Some (2020, 1, 5)), \<lparr>msg_id = 1, msg_date = Some (2020, 1, 5)\<rparr>),
      ((1970, 1), (2, None), \<lparr>msg_id = 2, msg_date = None\<rparr>)]) = 1"
proof -
  let ?m1 = "\<lparr>msg_id = 1, msg_date = Some (2020, 1, 5)\<rparr>"
  let ?m2 = "\<lparr>msg_id = 2, msg_date = None\<rparr>"
  let ?e1 = "((2020, 1), (1, Some (2020, 1, 5)), ?m1)"
  let ?e2 = "((1970, 1), (2, None), ?m2)"
  let ?pre = "[Downloading 1 2, Retr_cmds [1, 2], Zip_write ?e1, Zip_write ?e2, Dele_sent [1, 2]]"
  let ?st = "\<lparr>backed_up = 2, deleted = 2, failures = 0, remaining = 0, mailbox = [],
        archive = [?e1, ?e2], trace = ?pre @ Commit True [?m1, ?m2] # []\<rparr>"
  have run: "backup_emails_to_zip \<lparr>BATCH_SIZE = None\<rparr> 1 2 True [?m1, ?m2] [Served [] [] False]
             = Some (2, 2, ?st)"
    by code_simp
  have tr: "trace ?st = ?pre @ Commit True [?m1, ?m2] # [] \<and> ?m2 \<in> set [?m1, ?m2]" by simp
  have clean: "distinct [?m1, ?m2] \<and> (\<forall>a \<in> set [Served [] [] False]. failure_free a)"
    by (simp add: failure_free_def)
  from backed_up_before_deleted[OF run] tr clean
  have "length (filter (\<lambda>e. content e = ?m2) (archive ?st)) = 1" by blast
  with run show ?thesis by simp
qed

text \<open>
  A batch whose commit fails is downloaded and written again: the message of a
  one-message mailbox ends with two entries, of the same name, and is deleted.
\<close>

theorem retried_batch_archived_twice_counterexample:
  "backup_emails_to_zip \<lparr>BATCH_SIZE = None\<rparr> 1 1 True
     [\<lparr>msg_id = 1, msg_date = Some (2020, 1, 5)\<rparr>]
     [Served [] [] True, Served [] [] False]
   = Some (1, 1,
       \<lparr>backed_up = 1, deleted = 1, failures = 0, remaining = 0, mailbox = [],
        archive = [((2020, 1), (1, Some (2020, 1, 5)), \<lparr>msg_id = 1, msg_date = Some (2020, 1, 5)\<rparr>),
                   ((2020, 1), (1, Some (2020, 1, 5)), \<lparr>msg_id = 1, msg_date = Some (2020, 1, 5)\<rparr>)],
        trace = [Downloading 1 1, Retr_cmds [1],
                 Zip_write ((2020, 1), (1, Some (2020, 1, 5)), \<lparr>msg_id = 1, msg_date = Some (2020, 1, 5)\<rparr>),
                 Dele_sent [1],
                 Commit False [\<lparr>msg_id = 1, msg_date = Some (2020, 1, 5)\<rparr>],
                 Sleeping 30,
                 Downloading 1 1, Retr_cmds [1],
                 Zip_write ((2020, 1), (1, Some (2020, 1, 5)), \<lparr>msg_id = 1, msg_date = Some (2020, 1, 5)\<rparr>),
                 Dele_sent [1],
                 Commit True [\<lparr>msg_id = 1, msg_date = Some (2020, 1, 5)\<rparr>]]\<rparr>) \<and>
   length (filter (\<lambda>e. content e = \<lparr>msg_id = 1, msg_date = Some (2020, 1, 5)\<rparr>)
     [((2020, 1), (1, Some (2020, 1, 5)), \<lparr>msg_id = 1, msg_date = Some (2020, 1, 5)\<rparr>),
      ((2020, 1), (1, Some (2020, 1, 5)), \<lparr>msg_id = 1, msg_date = Some (2020, 1, 5)\<rparr>)]) = 2"
  by code_simp

end
